theory Spec2Isabelle
  imports Complex_Main
begin

section \<open>Data model\<close>

text \<open>
  Python exceptions that the modelled code can raise. Floating-point numbers are
  modelled as exact reals throughout.
\<close>

datatype py_error = IndexError | ValueError | TypeError | ZeroDivisionError

text \<open>One entry of the \<open>frames\<close> list of \<open>camera_path.json\<close>.\<close>

record path_frame =
  anim_frame :: nat
  time_ma :: real
  geo_frame_idx :: nat
  camera_lon :: real
  camera_lat :: real
  dispersal :: real
  era_label :: string

text \<open>
  A run is the tuple \<open>(geo_idx, start, end, length)\<close> of the scheduler; a crossfade
  assignment is \<open>(geo_idx_a, geo_idx_b, alpha)\<close>.
\<close>

type_synonym run = "nat \<times> int \<times> int \<times> int"
type_synonym assignment = "nat \<times> nat \<times> real"

definition r_geo :: "run \<Rightarrow> nat" where
  "r_geo r = fst r"

definition r_start :: "run \<Rightarrow> int" where
  "r_start r = fst (snd r)"

definition r_end :: "run \<Rightarrow> int" where
  "r_end r = fst (snd (snd r))"

definition r_len :: "run \<Rightarrow> int" where
  "r_len r = snd (snd (snd r))"

definition enumerate_py :: "'a list \<Rightarrow> (int \<times> 'a) list" where
  "enumerate_py xs = zip (map int [0..<length xs]) xs"

text \<open>A dictionary store \<open>d[k] = v\<close>, and a sequence of stores executed in order.\<close>

definition dict_store :: "('k \<rightharpoonup> 'v) \<Rightarrow> 'k \<times> 'v \<Rightarrow> ('k \<rightharpoonup> 'v)" where
  "dict_store d kv = d(fst kv \<mapsto> snd kv)"

definition dict_stores :: "('k \<times> 'v) list \<Rightarrow> ('k \<rightharpoonup> 'v)" where
  "dict_stores kvs = foldl dict_store Map.empty kvs"

section \<open>Crossfade scheduler (render\_globe.py)\<close>

text \<open>
  Body of the first loop of \<open>compute_crossfade_schedule\<close>: the state is
  \<open>(runs, prev_geo, run_start)\<close>, the element is \<open>(i, pf)\<close> from \<open>enumerate\<close>.
\<close>

definition runs_step :: "run list \<times> nat \<times> int \<Rightarrow> int \<times> path_frame \<Rightarrow> run list \<times> nat \<times> int" where
  "runs_step st ipf =
     (case st of (runs, prev_geo, run_start) \<Rightarrow>
      case ipf of (i, pf) \<Rightarrow>
        if geo_frame_idx pf \<noteq> prev_geo
        then (runs @ [(prev_geo, run_start, i, i - run_start)], geo_frame_idx pf, i)
        else (runs, prev_geo, run_start))"

text \<open>\<open>path_frames[0]\<close> raises IndexError on an empty list.\<close>

definition build_runs :: "path_frame list \<Rightarrow> py_error + run list" where
  "build_runs path_frames =
     (case path_frames of
        [] \<Rightarrow> Inl IndexError
      | pf0 # _ \<Rightarrow>
         (case foldl runs_step ([], geo_frame_idx pf0, 0) (enumerate_py path_frames) of
            (runs, prev_geo, run_start) \<Rightarrow>
              Inr (runs @ [(prev_geo, run_start, int (length path_frames),
                            int (length path_frames) - run_start)])))"

text \<open>
  The stores into \<open>crossfade_map\<close> made for one boundary (inner loop over \<open>k\<close>);
  \<open>//\<close> is floor division, as \<open>div\<close> on \<open>int\<close>.
\<close>

definition window_stores :: "run \<Rightarrow> run \<Rightarrow> int \<Rightarrow> (int \<times> assignment) list" where
  "window_stores out_run in_run crossfade_half =
     (let half = min (min (r_len out_run div 2) (r_len in_run div 2)) crossfade_half
      in if half < 1 then []
         else
           let window = 2 * half;
               transition = r_start in_run
           in map (\<lambda>k. (transition - half + k,
                         (r_geo out_run, r_geo in_run,
                          (of_int k + 1) / (of_int window + 1))))
                  (map int [0..<nat window]))"

text \<open>All stores of the outer loop \<open>for ri in range(len(runs) - 1)\<close>, in execution order.\<close>

definition crossfade_stores :: "run list \<Rightarrow> int \<Rightarrow> (int \<times> assignment) list" where
  "crossfade_stores runs crossfade_half =
     concat (map (\<lambda>ri. window_stores (runs ! ri) (runs ! (ri + 1)) crossfade_half)
                 [0..<length runs - 1])"

definition compute_crossfade_schedule ::
    "path_frame list \<Rightarrow> int \<Rightarrow> py_error + (int \<rightharpoonup> assignment)" where
  "compute_crossfade_schedule path_frames crossfade_half =
     (case build_runs path_frames of
        Inl e \<Rightarrow> Inl e
      | Inr runs \<Rightarrow> Inr (dict_stores (crossfade_stores runs crossfade_half)))"

section \<open>Crossfade scheduler (render\_flat.py)\<close>

definition runs_step_flat :: "run list \<times> nat \<times> int \<Rightarrow> int \<times> path_frame \<Rightarrow> run list \<times> nat \<times> int" where
  "runs_step_flat st ipf =
     (case st of (runs, prev_geo, run_start) \<Rightarrow>
      case ipf of (i, pf) \<Rightarrow>
        if geo_frame_idx pf \<noteq> prev_geo
        then (runs @ [(prev_geo, run_start, i, i - run_start)], geo_frame_idx pf, i)
        else (runs, prev_geo, run_start))"

definition build_runs_flat :: "path_frame list \<Rightarrow> py_error + run list" where
  "build_runs_flat path_frames =
     (case path_frames of
        [] \<Rightarrow> Inl IndexError
      | pf0 # _ \<Rightarrow>
         (case foldl runs_step_flat ([], geo_frame_idx pf0, 0) (enumerate_py path_frames) of
            (runs, prev_geo, run_start) \<Rightarrow>
              Inr (runs @ [(prev_geo, run_start, int (length path_frames),
                            int (length path_frames) - run_start)])))"

definition window_stores_flat :: "run \<Rightarrow> run \<Rightarrow> int \<Rightarrow> (int \<times> assignment) list" where
  "window_stores_flat out_run in_run crossfade_half =
     (let half = min (min (r_len out_run div 2) (r_len in_run div 2)) crossfade_half
      in if half < 1 then []
         else
           let window = 2 * half;
               transition = r_start in_run
           in map (\<lambda>k. (transition - half + k,
                         (r_geo out_run, r_geo in_run,
                          (of_int k + 1) / (of_int window + 1))))
                  (map int [0..<nat window]))"

definition crossfade_stores_flat :: "run list \<Rightarrow> int \<Rightarrow> (int \<times> assignment) list" where
  "crossfade_stores_flat runs crossfade_half =
     concat (map (\<lambda>ri. window_stores_flat (runs ! ri) (runs ! (ri + 1)) crossfade_half)
                 [0..<length runs - 1])"

definition compute_crossfade_schedule_flat ::
    "path_frame list \<Rightarrow> int \<Rightarrow> py_error + (int \<rightharpoonup> assignment)" where
  "compute_crossfade_schedule_flat path_frames crossfade_half =
     (case build_runs_flat path_frames of
        Inl e \<Rightarrow> Inl e
      | Inr runs \<Rightarrow> Inr (dict_stores (crossfade_stores_flat runs crossfade_half)))"

section \<open>Crossfade scheduler (test\_crossfade.py)\<close>

definition runs_step_test :: "run list \<times> nat \<times> int \<Rightarrow> int \<times> path_frame \<Rightarrow> run list \<times> nat \<times> int" where
  "runs_step_test st ipf =
     (case st of (runs, prev_geo, run_start) \<Rightarrow>
      case ipf of (i, pf) \<Rightarrow>
        if geo_frame_idx pf \<noteq> prev_geo
        then (runs @ [(prev_geo, run_start, i, i - run_start)], geo_frame_idx pf, i)
        else (runs, prev_geo, run_start))"

definition build_runs_test :: "path_frame list \<Rightarrow> py_error + run list" where
  "build_runs_test path_frames =
     (case path_frames of
        [] \<Rightarrow> Inl IndexError
      | pf0 # _ \<Rightarrow>
         (case foldl runs_step_test ([], geo_frame_idx pf0, 0) (enumerate_py path_frames) of
            (runs, prev_geo, run_start) \<Rightarrow>
              Inr (runs @ [(prev_geo, run_start, int (length path_frames),
                            int (length path_frames) - run_start)])))"

definition window_stores_test :: "run \<Rightarrow> run \<Rightarrow> int \<Rightarrow> (int \<times> assignment) list" where
  "window_stores_test out_run in_run crossfade_half =
     (let half = min (min (r_len out_run div 2) (r_len in_run div 2)) crossfade_half
      in if half < 1 then []
         else
           let window = 2 * half;
               transition = r_start in_run
           in map (\<lambda>k. (transition - half + k,
                         (r_geo out_run, r_geo in_run,
                          (of_int k + 1) / (of_int window + 1))))
                  (map int [0..<nat window]))"

definition crossfade_stores_test :: "run list \<Rightarrow> int \<Rightarrow> (int \<times> assignment) list" where
  "crossfade_stores_test runs crossfade_half =
     concat (map (\<lambda>ri. window_stores_test (runs ! ri) (runs ! (ri + 1)) crossfade_half)
                 [0..<length runs - 1])"

definition compute_crossfade_schedule_test ::
    "path_frame list \<Rightarrow> int \<Rightarrow> py_error + (int \<rightharpoonup> assignment)" where
  "compute_crossfade_schedule_test path_frames crossfade_half =
     (case build_runs_test path_frames of
        Inl e \<Rightarrow> Inl e
      | Inr runs \<Rightarrow> Inr (dict_stores (crossfade_stores_test runs crossfade_half)))"

section \<open>Specification vocabulary for the scheduler\<close>

text \<open>
  \<open>is_run_partition geos runs\<close>: \<open>runs\<close> is the partition of the sequence \<open>geos\<close> of
  \<open>geo_frame_idx\<close> values into maximal runs of equal consecutive values, each run carrying
  its value, its first index, the index after its last and its length.
\<close>

definition is_run_partition :: "nat list \<Rightarrow> run list \<Rightarrow> bool" where
  "is_run_partition geos runs \<longleftrightarrow>
     concat (map (\<lambda>r. replicate (nat (r_len r)) (r_geo r)) runs) = geos \<and>
     (\<forall>r\<in>set runs. 1 \<le> r_len r \<and> r_end r = r_start r + r_len r) \<and>
     (\<forall>ri. ri + 1 < length runs \<longrightarrow>
        r_start (runs ! (ri + 1)) = r_end (runs ! ri) \<and>
        r_geo (runs ! ri) \<noteq> r_geo (runs ! (ri + 1))) \<and>
     (runs \<noteq> [] \<longrightarrow> r_start (hd runs) = 0 \<and> r_end (last runs) = int (length geos))"

text \<open>The half width \<open>min(len(outgoing) // 2, len(incoming) // 2, half_window)\<close> at boundary \<open>ri\<close>.\<close>

definition window_half :: "run list \<Rightarrow> int \<Rightarrow> nat \<Rightarrow> int" where
  "window_half runs crossfade_half ri =
     min (min (r_len (runs ! ri) div 2) (r_len (runs ! (ri + 1)) div 2)) crossfade_half"

section \<open>Landmass clusterer (compute\_camera\_path.py, Step 1)\<close>

text \<open>
  A computation that may raise a Python exception (\<open>Some (Inl e)\<close>), return a value
  (\<open>Some (Inr x)\<close>) or run forever (\<open>None\<close>).
\<close>

type_synonym 'a comp = "(py_error + 'a) option"

definition returns :: "'a \<Rightarrow> 'a comp" where
  "returns x = Some (Inr x)"

definition raises :: "py_error \<Rightarrow> 'a comp" where
  "raises e = Some (Inl e)"

definition bind_comp :: "'a comp \<Rightarrow> ('a \<Rightarrow> 'b comp) \<Rightarrow> 'b comp" where
  "bind_comp m f = (case m of None \<Rightarrow> None | Some (Inl e) \<Rightarrow> Some (Inl e) | Some (Inr x) \<Rightarrow> f x)"

text \<open>One entry of \<open>poly_data\<close>.\<close>

record poly =
  p_lat :: real
  p_lon :: real
  p_area :: real
  p_x :: real
  p_y :: real
  p_z :: real

definition CLUSTER_THRESHOLDS :: "real list" where
  "CLUSTER_THRESHOLDS = [12, 18, 25]"

definition MIN_CLUSTER_COVERAGE :: real where
  "MIN_CLUSTER_COVERAGE = 0.50"

text \<open>
  \<open>find_root\<close>: the \<open>while\<close> loop with path halving. It returns the root together with
  the updated \<open>parent\<close> list; reading \<open>parent\<close> out of range raises IndexError.
\<close>

partial_function (option) find_root :: "nat list \<Rightarrow> nat \<Rightarrow> (py_error + nat list \<times> nat) option" where
  "find_root parent i =
     (if length parent \<le> i then Some (Inl IndexError)
      else if parent ! i = i then Some (Inr (parent, i))
      else if length parent \<le> parent ! i then Some (Inl IndexError)
      else find_root (parent[i := parent ! (parent ! i)]) (parent ! (parent ! i)))"

text \<open>\<open>union\<close>: union by rank; it returns the updated \<open>parent\<close> and \<open>rank\<close> lists.\<close>

definition union_uf :: "nat list \<Rightarrow> nat list \<Rightarrow> nat \<Rightarrow> nat \<Rightarrow> (nat list \<times> nat list) comp" where
  "union_uf parent rank a b =
     bind_comp (find_root parent a) (\<lambda>(parent1, ra).
     bind_comp (find_root parent1 b) (\<lambda>(parent2, rb).
       if ra = rb then returns (parent2, rank)
       else if length rank \<le> ra \<or> length rank \<le> rb then raises IndexError
       else
         let ra' = (if rank ! ra < rank ! rb then rb else ra);
             rb' = (if rank ! ra < rank ! rb then ra else rb);
             parent3 = parent2[rb' := ra']
         in if rank ! ra' = rank ! rb'
            then returns (parent3, rank[ra' := rank ! ra' + 1])
            else returns (parent3, rank)))"

text \<open>
  \<open>pairwise_dist.items()\<close> in insertion order, for a distance function on index pairs:
  the keys are the pairs \<open>(a_idx, b_idx)\<close> with \<open>a_idx < b_idx < n\<close>.
\<close>

definition pair_items :: "nat \<Rightarrow> (nat \<Rightarrow> nat \<Rightarrow> real) \<Rightarrow> ((nat \<times> nat) \<times> real) list" where
  "pair_items n dist_fn =
     concat (map (\<lambda>a_idx. map (\<lambda>b_idx. ((a_idx, b_idx), dist_fn a_idx b_idx)) [a_idx + 1..<n])
                 [0..<n])"

text \<open>The loop \<open>for (a_idx, b_idx), dist in pairwise_dist.items()\<close>.\<close>

fun union_pairs ::
    "((nat \<times> nat) \<times> real) list \<Rightarrow> real \<Rightarrow> nat list \<Rightarrow> nat list \<Rightarrow> (nat list \<times> nat list) comp" where
  "union_pairs [] threshold parent rank_arr = returns (parent, rank_arr)"
| "union_pairs (((a_idx, b_idx), dist_ab) # rest) threshold parent rank_arr =
     (if dist_ab < threshold
      then bind_comp (union_uf parent rank_arr a_idx b_idx)
             (\<lambda>(parent', rank_arr'). union_pairs rest threshold parent' rank_arr')
      else union_pairs rest threshold parent rank_arr)"

text \<open>
  \<open>clusters[root].append(idx)\<close> on a \<open>defaultdict(list)\<close>, kept as an association list in
  insertion order of the keys.
\<close>

fun dd_append :: "(nat \<times> nat list) list \<Rightarrow> nat \<Rightarrow> nat \<Rightarrow> (nat \<times> nat list) list" where
  "dd_append [] root_i idx = [(root_i, [idx])]"
| "dd_append ((k, idxs) # rest) root_i idx =
     (if k = root_i then (k, idxs @ [idx]) # rest else (k, idxs) # dd_append rest root_i idx)"

text \<open>The loop \<open>for idx in range(n)\<close> that fills \<open>clusters\<close>; \<open>find_root\<close> updates \<open>parent\<close>.\<close>

fun build_clusters ::
    "nat list \<Rightarrow> nat list \<Rightarrow> (nat \<times> nat list) list \<Rightarrow> ((nat \<times> nat list) list) comp" where
  "build_clusters [] parent clusters = returns clusters"
| "build_clusters (idx # rest) parent clusters =
     bind_comp (find_root parent idx)
       (\<lambda>(parent', root_i). build_clusters rest parent' (dd_append clusters root_i idx))"

text \<open>Python's \<open>sum\<close> (a left fold from 0) and \<open>max(..., key=...)\<close> (the first maximal element).\<close>

definition py_sum :: "real list \<Rightarrow> real" where
  "py_sum xs = foldl (+) 0 xs"

definition max_by :: "('a \<Rightarrow> real) \<Rightarrow> 'a list \<Rightarrow> 'a comp" where
  "max_by key xs =
     (case xs of
        [] \<Rightarrow> raises ValueError
      | x # rest \<Rightarrow> returns (foldl (\<lambda>best y. if key best < key y then y else best) x rest))"

text \<open>
  \<open>sum(poly_data[j]['area'] for j in idxs)\<close>; the indices come from \<open>range(n)\<close> with
  \<open>n = len(poly_data)\<close>.
\<close>

definition cluster_area :: "poly list \<Rightarrow> nat list \<Rightarrow> real" where
  "cluster_area poly_data idxs = py_sum (map (\<lambda>j. p_area (poly_data ! j)) idxs)"

text \<open>The body of the threshold loop up to \<open>candidate\<close>.\<close>

definition candidate_at ::
    "poly list \<Rightarrow> ((nat \<times> nat) \<times> real) list \<Rightarrow> real \<Rightarrow> (nat list) comp" where
  "candidate_at poly_data pairwise_dist threshold =
     (let n = length poly_data
      in bind_comp (union_pairs pairwise_dist threshold [0..<n] (replicate n 0))
           (\<lambda>(parent, rank_arr).
         bind_comp (build_clusters [0..<n] parent [])
           (\<lambda>clusters. max_by (cluster_area poly_data) (map snd clusters))))"

definition coverage_of :: "poly list \<Rightarrow> real \<Rightarrow> nat list \<Rightarrow> real" where
  "coverage_of poly_data total_area candidate =
     (if 0 < total_area then cluster_area poly_data candidate / total_area else 0)"

text \<open>
  The loop \<open>for threshold in CLUSTER_THRESHOLDS\<close> with its \<open>break\<close>; the state is
  \<open>(best_cluster, used_threshold)\<close>.
\<close>

fun threshold_loop ::
    "real list \<Rightarrow> poly list \<Rightarrow> ((nat \<times> nat) \<times> real) list \<Rightarrow> real \<Rightarrow> nat list option \<times> real
     \<Rightarrow> (nat list option \<times> real) comp" where
  "threshold_loop [] poly_data pairwise_dist total_area st = returns st"
| "threshold_loop (threshold # rest) poly_data pairwise_dist total_area st =
     bind_comp (candidate_at poly_data pairwise_dist threshold)
       (\<lambda>candidate.
          if MIN_CLUSTER_COVERAGE \<le> coverage_of poly_data total_area candidate
          then returns (Some candidate, threshold)
          else threshold_loop rest poly_data pairwise_dist total_area (Some candidate, threshold))"

text \<open>Lines 162 to 186: \<open>best_cluster\<close> and \<open>used_threshold\<close> after the loop.\<close>

definition dominant_cluster ::
    "poly list \<Rightarrow> ((nat \<times> nat) \<times> real) list \<Rightarrow> real \<Rightarrow> (nat list option \<times> real) comp" where
  "dominant_cluster poly_data pairwise_dist total_area =
     threshold_loop CLUSTER_THRESHOLDS poly_data pairwise_dist total_area
       (None, last CLUSTER_THRESHOLDS)"

section \<open>Centroid and dispersal per timestep (compute\_camera\_path.py, Steps 1 and 2)\<close>

text \<open>
  What \<open>pygplates.reconstruct\<close> delivers for one timestep: a list of reconstructed
  geometries. \<open>get_reconstructed_geometry()\<close> may return \<open>None\<close>; \<open>get_area()\<close> may raise
  (\<open>None\<close> here); \<open>to_lat_lon_list()\<close> gives the (lat, lon) points.
\<close>

record geometry =
  get_area :: "real option"
  to_lat_lon_list :: "(real \<times> real) list"

type_synonym reconstructed = "geometry option list"

definition radians :: "real \<Rightarrow> real" where
  "radians x = x * pi / 180"

definition degrees :: "real \<Rightarrow> real" where
  "degrees x = x * 180 / pi"

definition arctan2 :: "real \<Rightarrow> real \<Rightarrow> real" where
  "arctan2 y x =
     (if 0 < x then arctan (y / x)
      else if x < 0 then (if 0 \<le> y then arctan (y / x) + pi else arctan (y / x) - pi)
      else if 0 < y then pi / 2
      else if y < 0 then - pi / 2
      else 0)"

definition np_mean :: "real list \<Rightarrow> real" where
  "np_mean xs = py_sum xs / real (length xs)"

definition haversine_deg :: "real \<Rightarrow> real \<Rightarrow> real \<Rightarrow> real \<Rightarrow> real" where
  "haversine_deg lat1 lon1 lat2 lon2 =
     (let dlat = radians lat2 - radians lat1;
          dlon = radians lon2 - radians lon1;
          a = (sin (dlat / 2))\<^sup>2 + cos (radians lat1) * cos (radians lat2) * (sin (dlon / 2))\<^sup>2
      in degrees (2 * arctan2 (sqrt a) (sqrt (1 - a))))"

text \<open>
  One pass of the loop \<open>for rg in reconstructed\<close>: \<open>None\<close> when the geometry is skipped by
  \<open>continue\<close>, otherwise the entry appended to \<open>poly_data\<close>. Areas that are not positive, and
  areas whose computation raises, become 0.001.
\<close>

definition extract_poly :: "geometry option \<Rightarrow> poly option" where
  "extract_poly rg =
     (case rg of
        None \<Rightarrow> None
      | Some geom \<Rightarrow>
          let area0 = (case get_area geom of None \<Rightarrow> 0.001 | Some a \<Rightarrow> a);
              area = (if area0 \<le> 0 then 0.001 else area0);
              points = to_lat_lon_list geom
          in if points = [] then None
             else
               let clat = np_mean (map fst points);
                   clon = np_mean (map snd points)
               in Some \<lparr>p_lat = clat, p_lon = clon, p_area = area,
                         p_x = cos (radians clat) * cos (radians clon),
                         p_y = cos (radians clat) * sin (radians clon),
                         p_z = sin (radians clat)\<rparr>)"

definition poly_data_of :: "reconstructed \<Rightarrow> poly list" where
  "poly_data_of recon = List.map_filter extract_poly recon"

definition total_area_of :: "poly list \<Rightarrow> real" where
  "total_area_of poly_data = py_sum (map p_area poly_data)"

definition pairwise_dist_of :: "poly list \<Rightarrow> ((nat \<times> nat) \<times> real) list" where
  "pairwise_dist_of poly_data =
     pair_items (length poly_data)
       (\<lambda>a_idx b_idx. haversine_deg (p_lat (poly_data ! a_idx)) (p_lon (poly_data ! a_idx))
                                     (p_lat (poly_data ! b_idx)) (p_lon (poly_data ! b_idx)))"

text \<open>The area-weighted Cartesian centroid of \<open>best_cluster\<close>, as \<open>(centroid_lon, centroid_lat)\<close>.\<close>

definition cluster_centroid :: "poly list \<Rightarrow> nat list \<Rightarrow> real \<times> real" where
  "cluster_centroid poly_data best_cluster =
     (let carea = py_sum (map (\<lambda>j. p_area (poly_data ! j)) best_cluster);
          cx = py_sum (map (\<lambda>j. p_x (poly_data ! j) * p_area (poly_data ! j)) best_cluster) / carea;
          cy = py_sum (map (\<lambda>j. p_y (poly_data ! j) * p_area (poly_data ! j)) best_cluster) / carea;
          cz = py_sum (map (\<lambda>j. p_z (poly_data ! j) * p_area (poly_data ! j)) best_cluster) / carea
      in (degrees (arctan2 cy cx), degrees (arctan2 cz (sqrt (cx\<^sup>2 + cy\<^sup>2)))))"

text \<open>The three lists that Step 1 appends to.\<close>

record centroid_state =
  raw_lons :: "real list"
  raw_lats :: "real list"
  land_areas :: "real list"

definition py_last :: "'a list \<Rightarrow> 'a comp" where
  "py_last xs = (if xs = [] then raises IndexError else returns (last xs))"

text \<open>The body of the loop \<open>for i, time_ma in enumerate(times)\<close> of Step 1.\<close>

definition centroid_step :: "centroid_state \<Rightarrow> reconstructed \<Rightarrow> centroid_state comp" where
  "centroid_step st recon =
     (if recon = [] then
        (if raw_lons st \<noteq> [] then
           bind_comp (py_last (raw_lons st)) (\<lambda>lon.
           bind_comp (py_last (raw_lats st)) (\<lambda>lat.
           bind_comp (py_last (land_areas st)) (\<lambda>area.
             returns \<lparr>raw_lons = raw_lons st @ [lon], raw_lats = raw_lats st @ [lat],
                      land_areas = land_areas st @ [area]\<rparr>)))
         else
           returns \<lparr>raw_lons = raw_lons st @ [0], raw_lats = raw_lats st @ [0],
                    land_areas = land_areas st @ [0]\<rparr>)
      else
        let poly_data = poly_data_of recon;
            total_area = total_area_of poly_data;
            areas = land_areas st @ [total_area]
        in if poly_data = [] then
             returns \<lparr>raw_lons = raw_lons st @ [if raw_lons st \<noteq> [] then last (raw_lons st) else 0],
                      raw_lats = raw_lats st @ [if raw_lats st \<noteq> [] then last (raw_lats st) else 0],
                      land_areas = areas\<rparr>
           else
             bind_comp (dominant_cluster poly_data (pairwise_dist_of poly_data) total_area)
               (\<lambda>(best_cluster, used_threshold).
                  case best_cluster of
                    None \<Rightarrow> raises TypeError
                  | Some best \<Rightarrow>
                      returns \<lparr>raw_lons = raw_lons st @ [fst (cluster_centroid poly_data best)],
                               raw_lats = raw_lats st @ [snd (cluster_centroid poly_data best)],
                               land_areas = areas\<rparr>))"

fun centroid_loop :: "reconstructed list \<Rightarrow> centroid_state \<Rightarrow> centroid_state comp" where
  "centroid_loop [] st = returns st"
| "centroid_loop (recon # rest) st = bind_comp (centroid_step st recon) (centroid_loop rest)"

definition compute_centroids :: "reconstructed list \<Rightarrow> centroid_state comp" where
  "compute_centroids recons =
     centroid_loop recons \<lparr>raw_lons = [], raw_lats = [], land_areas = []\<rparr>"

text \<open>
  Step 2. One pass of the inner loop: \<open>None\<close> when the geometry is skipped, otherwise the
  value appended to \<open>dists\<close>, for the centroid \<open>(clat, clon)\<close> in degrees.
\<close>

definition weighted_dist :: "real \<Rightarrow> real \<Rightarrow> geometry option \<Rightarrow> real option" where
  "weighted_dist clat_deg clon_deg rg =
     (case rg of
        None \<Rightarrow> None
      | Some geom \<Rightarrow>
          let points = to_lat_lon_list geom
          in if points = [] then None
             else
               let plat = radians (np_mean (map fst points));
                   plon = radians (np_mean (map snd points));
                   clat = radians clat_deg;
                   clon = radians clon_deg;
                   dlat = plat - clat;
                   dlon = plon - clon;
                   a = (sin (dlat / 2))\<^sup>2 + cos clat * cos plat * (sin (dlon / 2))\<^sup>2;
                   dist_c = 2 * arctan2 (sqrt a) (sqrt (1 - a));
                   area = (case get_area geom of None \<Rightarrow> 0.001 | Some ar \<Rightarrow> ar)
               in Some (dist_c * max area 0.001))"

text \<open>
  The body of the loop of Step 2 for timestep \<open>i\<close>; \<open>dispersal\<close> is the array created by
  \<open>np.zeros(total_steps)\<close> and \<open>max(0, i - 1)\<close> is \<open>i - 1\<close> on \<open>nat\<close>. The arrays of Step 1
  are read at \<open>i\<close> only when some geometry has points.
\<close>

definition dispersal_step ::
    "centroid_state \<Rightarrow> real list \<Rightarrow> nat \<times> reconstructed \<Rightarrow> (real list) comp" where
  "dispersal_step st dispersal_arr irecon =
     (case irecon of (i, recon) \<Rightarrow>
        if length dispersal_arr \<le> i then raises IndexError
        else if recon = [] then returns (dispersal_arr[i := dispersal_arr ! (i - 1)])
        else if List.map_filter (weighted_dist 0 0) recon = []
        then returns (dispersal_arr[i := dispersal_arr ! (i - 1)])
        else if length (raw_lats st) \<le> i \<or> length (raw_lons st) \<le> i \<or> length (land_areas st) \<le> i
        then raises IndexError
        else
          returns (dispersal_arr[i := py_sum (List.map_filter
                       (weighted_dist (raw_lats st ! i) (raw_lons st ! i)) recon)
                     / max (land_areas st ! i) 0.001]))"

fun dispersal_loop ::
    "centroid_state \<Rightarrow> (nat \<times> reconstructed) list \<Rightarrow> real list \<Rightarrow> (real list) comp" where
  "dispersal_loop st [] dispersal_arr = returns dispersal_arr"
| "dispersal_loop st (irecon # rest) dispersal_arr =
     bind_comp (dispersal_step st dispersal_arr irecon) (dispersal_loop st rest)"

definition compute_dispersal :: "centroid_state \<Rightarrow> reconstructed list \<Rightarrow> (real list) comp" where
  "compute_dispersal st recons =
     dispersal_loop st (zip [0..<length recons] recons) (replicate (length recons) 0)"

text \<open>Steps 1 and 2 together: the per-timestep records before normalisation.\<close>

definition centroids_and_dispersal ::
    "reconstructed list \<Rightarrow> (centroid_state \<times> real list) comp" where
  "centroids_and_dispersal recons =
     bind_comp (compute_centroids recons) (\<lambda>st.
     bind_comp (compute_dispersal st recons) (\<lambda>dispersal_arr. returns (st, dispersal_arr)))"

section \<open>Era overrides and blending (compute\_camera\_path.py, Step 3)\<close>

text \<open>An entry \<open>(time_ma, target_lon, target_lat, label, weight)\<close> of \<open>ERA_OVERRIDES\<close>.\<close>

record era =
  e_time :: int
  e_lon :: "real option"
  e_lat :: "real option"
  e_label :: string
  e_weight :: real

definition mk_era :: "int \<Rightarrow> real option \<Rightarrow> real option \<Rightarrow> string \<Rightarrow> real \<Rightarrow> era" where
  "mk_era t lon lat label w = \<lparr>e_time = t, e_lon = lon, e_lat = lat, e_label = label, e_weight = w\<rparr>"

definition ERA_OVERRIDES :: "era list" where
  "ERA_OVERRIDES =
     [mk_era 1000 None None ''Rodinia assembling'' 0.0,
      mk_era 900 None None ''Rodinia assembled'' 0.0,
      mk_era 750 None None ''Rodinia breaking up'' 0.0,
      mk_era 550 (Some 100) (Some (-45)) ''Gondwana assembling'' 0.5,
      mk_era 480 (Some 120) (Some (-50)) ''Gondwana assembled'' 0.5,
      mk_era 380 (Some 5) (Some (-15)) ''Laurussia forming'' 0.4,
      mk_era 350 (Some 0) (Some (-10)) ''Pangaea assembling'' 0.5,
      mk_era 300 (Some 0) (Some 10) ''Pangaea coalescing'' 0.6,
      mk_era 250 (Some 0) (Some 10) ''Pangaea assembled'' 0.7,
      mk_era 200 (Some 20) (Some 15) ''Pangaea breaking up'' 0.5,
      mk_era 150 (Some 20) (Some 10) ''Atlantic Ocean opening'' 0.3,
      mk_era 100 (Some 10) (Some 10) ''India racing north'' 0.2,
      mk_era 66 (Some 0) (Some 10) ''K-Pg extinction'' 0.2,
      mk_era 50 (Some 0) (Some 20) ''Modern world forming'' 0.1,
      mk_era 0 (Some 15) (Some 25) ''Present day'' 0.4]"

text \<open>\<open>int(x)\<close> on a float truncates towards zero.\<close>

definition py_int :: "real \<Rightarrow> int" where
  "py_int x = (if 0 \<le> x then \<lfloor>x\<rfloor> else \<lceil>x\<rceil>)"

text \<open>
  \<open>t_idx = max(0, min(int((TIME_START - e[0]) / TIME_STEP), total_steps - 1))\<close>; the
  division raises on \<open>TIME_STEP = 0\<close>.
\<close>

definition clamp_idx :: "int \<Rightarrow> int \<Rightarrow> nat \<Rightarrow> int \<Rightarrow> int comp" where
  "clamp_idx time_start time_step total_steps t =
     (if time_step = 0 then raises ZeroDivisionError
      else returns (max 0 (min (py_int (real_of_int (time_start - t) / real_of_int time_step))
                               (int total_steps - 1))))"

text \<open>
  One entry of \<open>era_lons\<close> or \<open>era_lats\<close>: the authored target, or the raw centroid at
  \<open>t_idx\<close> when the target is \<open>None\<close>.
\<close>

definition era_target ::
    "int \<Rightarrow> int \<Rightarrow> nat \<Rightarrow> real list \<Rightarrow> int \<Rightarrow> real option \<Rightarrow> real comp" where
  "era_target time_start time_step total_steps raw t target =
     bind_comp (clamp_idx time_start time_step total_steps t) (\<lambda>t_idx.
       case target of
         Some v \<Rightarrow> returns v
       | None \<Rightarrow> if nat t_idx < length raw then returns (raw ! nat t_idx) else raises IndexError)"

fun era_targets ::
    "int \<Rightarrow> int \<Rightarrow> nat \<Rightarrow> real list \<Rightarrow> (int \<times> real option) list \<Rightarrow> (real list) comp" where
  "era_targets time_start time_step total_steps raw [] = returns []"
| "era_targets time_start time_step total_steps raw ((t, target) # rest) =
     bind_comp (era_target time_start time_step total_steps raw t target) (\<lambda>v.
     bind_comp (era_targets time_start time_step total_steps raw rest) (\<lambda>vs. returns (v # vs)))"

text \<open>
  The function that \<open>scipy.interpolate.interp1d(x, y, kind='linear',
  fill_value='extrapolate')\<close> returns, evaluated at \<open>x_new\<close>, after scipy's \<open>_call_linear\<close>:
  the knots are sorted by \<open>x\<close>, \<open>searchsorted\<close> counts the knots below \<open>x_new\<close>, the index is
  clipped to \<open>[1, len(x) - 1]\<close> and the segment between the knots \<open>lo = hi - 1\<close> and \<open>hi\<close> is
  evaluated, also when \<open>x_new\<close> lies outside the knots. On a single knot, or on a segment
  between two knots with equal \<open>x\<close>, scipy divides by zero and delivers NaN or an infinity,
  which the exact reals do not have: the values of this function are meaningful on at
  least two knots with pairwise different \<open>x\<close>, and the theorems on Step 3 are stated
  for such keyframe lists.
\<close>

definition interp1d_linear :: "real list \<Rightarrow> real list \<Rightarrow> real \<Rightarrow> real" where
  "interp1d_linear xs ys x_new =
     (let pts = sort_key fst (zip xs ys);
          x = map fst pts;
          y = map snd pts;
          hi = max 1 (min (length (filter (\<lambda>a. a < x_new) x)) (length x - 1));
          lo = hi - 1;
          slope = (y ! hi - y ! lo) / (x ! hi - x ! lo)
      in slope * (x_new - x ! lo) + y ! lo)"

text \<open>
  The constructor call \<open>interp1d(x, y, kind='linear', fill_value='extrapolate')\<close>: it raises
  ValueError when \<open>x\<close> and \<open>y\<close> differ in length and when there is no knot at all, and
  otherwise returns the interpolant.
\<close>

definition interp1d :: "real list \<Rightarrow> real list \<Rightarrow> (real \<Rightarrow> real) comp" where
  "interp1d xs ys =
     (if length xs \<noteq> length ys then raises ValueError
      else if xs = [] then raises ValueError
      else returns (interp1d_linear xs ys))"

text \<open>\<open>interp(times[::-1])[::-1]\<close> for an interpolant \<open>interp\<close>.\<close>

definition interp_over :: "(real \<Rightarrow> real) \<Rightarrow> real list \<Rightarrow> real list" where
  "interp_over interp time_grid = rev (map interp (rev time_grid))"

text \<open>
  \<open>raw * (1 - override_weights) + override * override_weights\<close> on arrays with one entry
  per timestep.
\<close>

definition blend :: "real list \<Rightarrow> real list \<Rightarrow> real list \<Rightarrow> real list" where
  "blend raw weights override =
     map (\<lambda>(r, w, t). r * (1 - w) + t * w) (zip raw (zip weights override))"

record blend_result =
  override_weights :: "real list"
  override_lons :: "real list"
  override_lats :: "real list"
  blended_lons :: "real list"
  blended_lats :: "real list"

text \<open>
  Step 3 for a list of eras, a time grid and the raw centroids of Step 1. The three
  interpolants are built on the reversed era lists, in the order of the script.
\<close>

definition era_blend ::
    "era list \<Rightarrow> int \<Rightarrow> int \<Rightarrow> real list \<Rightarrow> real list \<Rightarrow> real list \<Rightarrow> blend_result comp" where
  "era_blend eras time_start time_step time_grid raw_lon raw_lat =
     (let total_steps = length time_grid;
          era_times = map (\<lambda>e. real_of_int (e_time e)) eras;
          era_weights = map e_weight eras
      in bind_comp (era_targets time_start time_step total_steps raw_lon
                      (map (\<lambda>e. (e_time e, e_lon e)) eras)) (\<lambda>era_lons.
         bind_comp (era_targets time_start time_step total_steps raw_lat
                      (map (\<lambda>e. (e_time e, e_lat e)) eras)) (\<lambda>era_lats.
         bind_comp (interp1d (rev era_times) (rev era_weights)) (\<lambda>weight_interp.
         bind_comp (interp1d (rev era_times) (rev era_lons)) (\<lambda>lon_interp.
         bind_comp (interp1d (rev era_times) (rev era_lats)) (\<lambda>lat_interp.
           let ow = interp_over weight_interp time_grid;
               ol = interp_over lon_interp time_grid;
               oa = interp_over lat_interp time_grid
           in returns \<lparr>override_weights = ow, override_lons = ol, override_lats = oa,
                       blended_lons = blend raw_lon ow ol,
                       blended_lats = blend raw_lat ow oa\<rparr>))))))"

text \<open>The line through the knots \<open>p\<close> and \<open>q\<close>, evaluated at \<open>x\<close>.\<close>

definition linear_through :: "real \<times> real \<Rightarrow> real \<times> real \<Rightarrow> real \<Rightarrow> real" where
  "linear_through p q x = snd p + (snd q - snd p) / (fst q - fst p) * (x - fst p)"

text \<open>
  The value of a keyframe in \<open>era_lons\<close> or \<open>era_lats\<close>: the authored target, or, when the
  target is \<open>None\<close>, the raw centroid at the timestep of the keyframe.
\<close>

definition keyframe_value :: "int \<Rightarrow> int \<Rightarrow> nat \<Rightarrow> real list \<Rightarrow> int \<Rightarrow> real option \<Rightarrow> real" where
  "keyframe_value time_start time_step total_steps raw t target =
     (case target of
        Some v \<Rightarrow> v
      | None \<Rightarrow> raw ! nat (max 0 (min (py_int (real_of_int (time_start - t) / real_of_int time_step))
                                     (int total_steps - 1))))"

section \<open>Pacing and frame expansion (compute\_camera\_path.py, Step 5)\<close>

definition MIN_SPEED :: real where
  "MIN_SPEED = 1.0"

definition MAX_SPEED :: real where
  "MAX_SPEED = 3.0"

text \<open>\<open>round\<close> on a float rounds to the nearest integer, and a tie to the even one.\<close>

definition py_round :: "real \<Rightarrow> int" where
  "py_round x =
     (let f = \<lfloor>x\<rfloor>;
          d = x - of_int f
      in if d < 1 / 2 then f
         else if 1 / 2 < d then f + 1
         else if even f then f
         else f + 1)"

text \<open>\<open>frame_duration = MIN_SPEED + (MAX_SPEED - MIN_SPEED) * (1.0 - smooth_dispersal)\<close>.\<close>

definition frame_duration :: "real \<Rightarrow> real \<Rightarrow> real list \<Rightarrow> real list" where
  "frame_duration min_speed max_speed smooth_disp =
     map (\<lambda>d. min_speed + (max_speed - min_speed) * (1.0 - d)) smooth_disp"

text \<open>\<open>n_frames = max(1, int(round(frame_duration[i])))\<close>.\<close>

definition n_frames_of :: "real \<Rightarrow> int" where
  "n_frames_of fd = max 1 (py_round fd)"

definition SUPERCONTINENT_HOLD :: "(int \<times> int \<times> string) list" where
  "SUPERCONTINENT_HOLD =
     [(900, 48, ''Rodinia peak''), (480, 36, ''Gondwana peak''), (250, 60, ''Pangaea peak''),
      (0, 60, ''Present day'')]"

text \<open>The stores \<open>hold_frames[idx] = (extra, label)\<close>, in order.\<close>

fun hold_stores ::
    "int \<Rightarrow> int \<Rightarrow> nat \<Rightarrow> (int \<times> int \<times> string) list \<Rightarrow> ((nat \<times> int \<times> string) list) comp" where
  "hold_stores time_start time_step total_steps [] = returns []"
| "hold_stores time_start time_step total_steps ((sc_time, extra, label) # rest) =
     bind_comp (clamp_idx time_start time_step total_steps sc_time) (\<lambda>idx.
     bind_comp (hold_stores time_start time_step total_steps rest) (\<lambda>kvs.
       returns ((nat idx, (extra, label)) # kvs)))"

definition build_hold_frames ::
    "int \<Rightarrow> int \<Rightarrow> nat \<Rightarrow> (int \<times> int \<times> string) list \<Rightarrow> (nat \<rightharpoonup> int \<times> string) comp" where
  "build_hold_frames time_start time_step total_steps holds =
     bind_comp (hold_stores time_start time_step total_steps holds)
       (\<lambda>kvs. returns (dict_stores kvs))"

text \<open>\<open>get_era_label\<close>: the last era in list order whose time is at least the given time.\<close>

definition get_era_label :: "era list \<Rightarrow> real \<Rightarrow> string comp" where
  "get_era_label eras t_ma =
     (case eras of
        [] \<Rightarrow> raises IndexError
      | e0 # _ \<Rightarrow>
          returns (e_label (foldl (\<lambda>best e. if t_ma \<le> real_of_int (e_time e) then e else best)
                                   e0 eras)))"

text \<open>What the frame loop reads. Every array is a numpy array indexed by the timestep.\<close>

record expander_input =
  time_values :: "real list"
  smooth_lons :: "real list"
  smooth_lats :: "real list"
  smooth_dispersal :: "real list"
  hold_frames :: "nat \<rightharpoonup> int \<times> string"
  era_list :: "era list"
  min_speed :: real
  max_speed :: real

definition np_get :: "'a list \<Rightarrow> nat \<Rightarrow> 'a comp" where
  "np_get xs i = (if i < length xs then returns (xs ! i) else raises IndexError)"

text \<open>
  The loop \<open>for sub in range(n_frames)\<close> for timestep \<open>i\<close>, starting at frame number
  \<open>anim\<close>: the regular frames of the timestep.
\<close>

definition regular_frames ::
    "expander_input \<Rightarrow> nat \<Rightarrow> real \<Rightarrow> string \<Rightarrow> int \<Rightarrow> nat \<Rightarrow> (path_frame list) comp" where
  "regular_frames inp i t_ma label n_frames anim =
     bind_comp (np_get (smooth_lons inp) i) (\<lambda>lon_i.
     bind_comp (np_get (smooth_lats inp) i) (\<lambda>lat_i.
     bind_comp (np_get (smooth_dispersal inp) i) (\<lambda>disp_i.
       if int i < int (length (time_values inp)) - 1 then
         bind_comp (np_get (smooth_lons inp) (i + 1)) (\<lambda>lon_n.
         bind_comp (np_get (smooth_lats inp) (i + 1)) (\<lambda>lat_n.
           returns (map (\<lambda>sub.
               let t = (if 1 < n_frames then real sub / real_of_int n_frames else 0)
               in \<lparr>anim_frame = anim + sub, time_ma = t_ma, geo_frame_idx = i,
                    camera_lon = lon_i * (1 - t) + lon_n * t,
                    camera_lat = lat_i * (1 - t) + lat_n * t,
                    dispersal = disp_i, era_label = label\<rparr>)
             [0..<nat n_frames])))
       else
         returns (map (\<lambda>sub.
             \<lparr>anim_frame = anim + sub, time_ma = t_ma, geo_frame_idx = i,
              camera_lon = lon_i, camera_lat = lat_i,
              dispersal = disp_i, era_label = label\<rparr>)
           [0..<nat n_frames]))))"

text \<open>The hold frames appended when \<open>i in hold_frames\<close>.\<close>

definition hold_frames_at ::
    "expander_input \<Rightarrow> nat \<Rightarrow> real \<Rightarrow> string \<Rightarrow> nat \<Rightarrow> (path_frame list) comp" where
  "hold_frames_at inp i t_ma label anim =
     (case hold_frames inp i of
        None \<Rightarrow> returns []
      | Some (extra, hold_label) \<Rightarrow>
          if nat extra = 0 then returns []
          else
            bind_comp (np_get (smooth_lons inp) i) (\<lambda>lon_i.
            bind_comp (np_get (smooth_lats inp) i) (\<lambda>lat_i.
            bind_comp (np_get (smooth_dispersal inp) i) (\<lambda>disp_i.
              returns (map (\<lambda>h.
                  \<lparr>anim_frame = anim + h, time_ma = t_ma, geo_frame_idx = i,
                   camera_lon = lon_i, camera_lat = lat_i,
                   dispersal = disp_i, era_label = label\<rparr>)
                [0..<nat extra])))))"

text \<open>The body of the loop \<open>for i in range(total_steps)\<close>: the frames appended for timestep \<open>i\<close>.\<close>

definition timestep_frames :: "expander_input \<Rightarrow> nat \<Rightarrow> nat \<Rightarrow> (path_frame list) comp" where
  "timestep_frames inp i anim =
     bind_comp (np_get (time_values inp) i) (\<lambda>t_ma.
     bind_comp (get_era_label (era_list inp) t_ma) (\<lambda>label.
     bind_comp (np_get (frame_duration (min_speed inp) (max_speed inp) (smooth_dispersal inp)) i)
       (\<lambda>fd.
     bind_comp (regular_frames inp i t_ma label (n_frames_of fd) anim) (\<lambda>reg.
     bind_comp (hold_frames_at inp i t_ma label (anim + length reg)) (\<lambda>hold.
       returns (reg @ hold))))))"

text \<open>The frame loop; the state is \<open>(output_frames, anim_frame)\<close>.\<close>

fun expand_loop ::
    "expander_input \<Rightarrow> nat list \<Rightarrow> path_frame list \<times> nat \<Rightarrow> (path_frame list \<times> nat) comp" where
  "expand_loop inp [] st = returns st"
| "expand_loop inp (i # rest) st =
     bind_comp (timestep_frames inp i (snd st))
       (\<lambda>fs. expand_loop inp rest (fst st @ fs, snd st + length fs))"

definition expand_frames :: "expander_input \<Rightarrow> (path_frame list) comp" where
  "expand_frames inp =
     bind_comp (expand_loop inp [0..<length (time_values inp)] ([], 0))
       (\<lambda>st. returns (fst st))"

section \<open>Specification vocabulary for the expander\<close>

text \<open>
  The arrays read by the frame loop have one entry per timestep and the era list is not
  empty; \<open>regular_count\<close> is \<open>max(1, round(multiplier))\<close> for a timestep and \<open>hold_count\<close> the
  number of hold frames configured for it.
\<close>

definition well_formed_input :: "expander_input \<Rightarrow> bool" where
  "well_formed_input inp \<longleftrightarrow>
     length (smooth_lons inp) = length (time_values inp) \<and>
     length (smooth_lats inp) = length (time_values inp) \<and>
     length (smooth_dispersal inp) = length (time_values inp) \<and>
     era_list inp \<noteq> []"

definition regular_count :: "expander_input \<Rightarrow> nat \<Rightarrow> nat" where
  "regular_count inp i =
     nat (max 1 (py_round (min_speed inp + (max_speed inp - min_speed inp)
                                            * (1 - smooth_dispersal inp ! i))))"

definition hold_count :: "expander_input \<Rightarrow> nat \<Rightarrow> nat" where
  "hold_count inp i = (case hold_frames inp i of None \<Rightarrow> 0 | Some (extra, label) \<Rightarrow> nat extra)"

section \<open>Specification vocabulary for the clusterer\<close>

text \<open>
  \<open>root_of parent i r\<close>: following \<open>parent\<close> from \<open>i\<close> reaches the fixed point \<open>r\<close>.
\<close>

inductive root_of :: "nat list \<Rightarrow> nat \<Rightarrow> nat \<Rightarrow> bool" where
  root_self: "i < length parent \<Longrightarrow> parent ! i = i \<Longrightarrow> root_of parent i i"
| root_step: "i < length parent \<Longrightarrow> parent ! i \<noteq> i \<Longrightarrow> root_of parent (parent ! i) r
              \<Longrightarrow> root_of parent i r"

text \<open>
  The union-find invariant: parents are in range and the rank strictly increases along
  every parent link that is not a self-loop.
\<close>

definition uf_inv :: "nat list \<Rightarrow> nat list \<Rightarrow> bool" where
  "uf_inv parent rank \<longleftrightarrow>
     length rank = length parent \<and>
     (\<forall>i<length parent. parent ! i < length parent \<and>
        (parent ! i \<noteq> i \<longrightarrow> rank ! i < rank ! (parent ! i)))"

text \<open>The representative of \<open>i\<close>, the root that \<open>find_root\<close> computes.\<close>

definition rep :: "nat list \<Rightarrow> nat \<Rightarrow> nat" where
  "rep parent i = (THE r. root_of parent i r)"

text \<open>
  The pairs of polygon indices closer than the threshold, and the connected component of
  an index in the graph they span.
\<close>

definition linked :: "nat \<Rightarrow> (nat \<Rightarrow> nat \<Rightarrow> real) \<Rightarrow> real \<Rightarrow> (nat \<times> nat) set" where
  "linked n dist_fn threshold = {(a, b). a < b \<and> b < n \<and> dist_fn a b < threshold}"

definition component :: "nat \<Rightarrow> (nat \<Rightarrow> nat \<Rightarrow> real) \<Rightarrow> real \<Rightarrow> nat \<Rightarrow> nat set" where
  "component n dist_fn threshold i =
     {j. (i, j) \<in> (linked n dist_fn threshold \<union> (linked n dist_fn threshold)\<inverse>)\<^sup>*}"

text \<open>The index pairs of a list of \<open>pairwise_dist\<close> items that pass the threshold test.\<close>

definition passing :: "((nat \<times> nat) \<times> real) list \<Rightarrow> real \<Rightarrow> (nat \<times> nat) set" where
  "passing items threshold = {ab. \<exists>d. (ab, d) \<in> set items \<and> d < threshold}"

text \<open>
  \<open>clusters\<close> groups the indices \<open>js\<close> by their representative, each group in the order of
  \<open>js\<close>.
\<close>

definition grouped :: "(nat \<Rightarrow> nat) \<Rightarrow> nat list \<Rightarrow> (nat \<times> nat list) list \<Rightarrow> bool" where
  "grouped \<rho> js cs \<longleftrightarrow>
     distinct (map fst cs) \<and>
     (\<forall>(r, ms)\<in>set cs. ms \<noteq> [] \<and> ms = filter (\<lambda>j. \<rho> j = r) js) \<and>
     (\<forall>j\<in>set js. \<rho> j \<in> fst ` set cs)"

text \<open>
  The summed area of a set of polygon indices, and the property that \<open>cand\<close> lists, in
  ascending order, a connected component of greatest summed area.
\<close>

definition area_of :: "poly list \<Rightarrow> nat set \<Rightarrow> real" where
  "area_of poly_data C = (\<Sum>j\<in>C. p_area (poly_data ! j))"

definition is_largest_component ::
    "poly list \<Rightarrow> (nat \<Rightarrow> nat \<Rightarrow> real) \<Rightarrow> real \<Rightarrow> nat list \<Rightarrow> bool" where
  "is_largest_component poly_data dist_fn threshold cand \<longleftrightarrow>
     (\<exists>i<length poly_data.
        cand = filter (\<lambda>j. j \<in> component (length poly_data) dist_fn threshold i)
                      [0..<length poly_data]) \<and>
     (\<forall>k<length poly_data.
        area_of poly_data (component (length poly_data) dist_fn threshold k)
          \<le> area_of poly_data (set cand))"

text \<open>A polygon of the given area at latitude 0, longitude 0.\<close>

definition poly_of_area :: "real \<Rightarrow> poly" where
  "poly_of_area a = \<lparr>p_lat = 0, p_lon = 0, p_area = a, p_x = 1, p_y = 0, p_z = 0\<rparr>"

section \<open>Computations\<close>

lemma bind_returns [simp]: "bind_comp (returns x) f = f x"
  by (simp add: bind_comp_def returns_def)

lemma bind_raises [simp]: "bind_comp (raises e) f = raises e"
  by (simp add: bind_comp_def raises_def)

lemma returns_inject [simp]: "returns x = returns y \<longleftrightarrow> x = y"
  by (simp add: returns_def)

lemma returns_not_raises [simp]: "returns x \<noteq> raises e" "raises e \<noteq> returns x"
  by (simp_all add: returns_def raises_def)

lemma bind_comp_returns_iff:
  "bind_comp m f = returns y \<longleftrightarrow> (\<exists>x. m = returns x \<and> f x = returns y)"
  by (auto simp: bind_comp_def returns_def split: option.splits sum.splits)

section \<open>The three scheduler copies agree\<close>

lemma runs_step_copies: "runs_step_flat = runs_step" "runs_step_test = runs_step"
  by (simp_all add: fun_eq_iff runs_step_flat_def runs_step_test_def runs_step_def)

lemma build_runs_copies: "build_runs_flat = build_runs" "build_runs_test = build_runs"
  unfolding fun_eq_iff build_runs_flat_def build_runs_test_def build_runs_def runs_step_copies
  by simp_all

lemma window_stores_copies:
  "window_stores_flat = window_stores" "window_stores_test = window_stores"
  by (simp_all add: fun_eq_iff window_stores_flat_def window_stores_test_def window_stores_def)

lemma crossfade_stores_copies:
  "crossfade_stores_flat = crossfade_stores" "crossfade_stores_test = crossfade_stores"
  unfolding fun_eq_iff crossfade_stores_flat_def crossfade_stores_test_def
    crossfade_stores_def window_stores_copies
  by simp_all

text \<open>
  Claim C2. The copies of \<open>compute_crossfade_schedule\<close> in render\_globe.py,
  render\_flat.py and test\_crossfade.py return the same result on every frame sequence and
  every half window: the same assignment map, or the same IndexError on the empty
  sequence. Each copy is a function of its two arguments only, so equal inputs give equal
  outputs.
\<close>

theorem crossfade_schedule_copies_agree:
  "compute_crossfade_schedule_flat path_frames crossfade_half
     = compute_crossfade_schedule path_frames crossfade_half
   \<and> compute_crossfade_schedule_test path_frames crossfade_half
     = compute_crossfade_schedule path_frames crossfade_half"
  unfolding compute_crossfade_schedule_flat_def compute_crossfade_schedule_test_def
    compute_crossfade_schedule_def build_runs_copies crossfade_stores_copies
  by simp

section \<open>Run partition and crossfade windows\<close>

lemma enumerate_py_snoc:
  "enumerate_py (xs @ [x]) = enumerate_py xs @ [(int (length xs), x)]"
  by (simp add: enumerate_py_def)

lemma run_fields [simp]:
  "r_geo (g, s, e, l) = g" "r_start (g, s, e, l) = s" "r_end (g, s, e, l) = e"
  "r_len (g, s, e, l) = l"
  by (simp_all add: r_geo_def r_start_def r_end_def r_len_def)

lemma run_partition_extend:
  assumes "is_run_partition geos (runs @ [(g, s, int (length geos), int (length geos) - s)])"
  shows "is_run_partition (geos @ [g])
           (runs @ [(g, s, int (length geos) + 1, int (length geos) + 1 - s)])"
proof -
  let ?n = "int (length geos)"
  from assms have len: "1 \<le> ?n - s"
    by (auto simp: is_run_partition_def)
  then have rep: "replicate (nat (?n + 1 - s)) g = replicate (nat (?n - s)) g @ [g]"
    by (metis Suc_nat_eq_nat_zadd1 add_diff_eq diff_ge_0_iff_ge le_add_same_cancel1
        order.trans replicate_Suc replicate_append_same zero_le_one add.commute)
  show ?thesis
    using assms len unfolding is_run_partition_def
    apply (intro conjI)
       apply (simp add: rep)
      apply auto[1]
     apply (auto simp: nth_append hd_append split: if_splits)
    done
qed

lemma run_partition_new:
  assumes "is_run_partition geos (runs @ [(p, s, int (length geos), int (length geos) - s)])"
    and "g \<noteq> p"
  shows "is_run_partition (geos @ [g])
           (runs @ [(p, s, int (length geos), int (length geos) - s)]
                 @ [(g, int (length geos), int (length geos) + 1, 1)])"
  using assms unfolding is_run_partition_def
  apply (intro conjI)
     apply simp
    apply auto[1]
   apply (auto simp: nth_append hd_append less_Suc_eq split: if_splits)
  done


lemma runs_fold_partition:
  assumes "xs \<noteq> []"
    and "foldl runs_step ([], geo_frame_idx (hd xs), 0) (enumerate_py xs) = (runs, p, s)"
  shows "is_run_partition (map geo_frame_idx xs)
           (runs @ [(p, s, int (length xs), int (length xs) - s)])"
  using assms
proof (induction xs arbitrary: runs p s rule: rev_induct)
  case Nil
  then show ?case by simp
next
  case (snoc x xs)
  show ?case
  proof (cases "xs = []")
    case True
    with snoc.prems show ?thesis
      by (auto simp: enumerate_py_def runs_step_def is_run_partition_def)
  next
    case False
    obtain runs0 p0 s0 where st:
      "foldl runs_step ([], geo_frame_idx (hd xs), 0) (enumerate_py xs) = (runs0, p0, s0)"
      by (metis prod_cases3)
    from snoc.IH[OF False st]
    have ih: "is_run_partition (map geo_frame_idx xs)
                (runs0 @ [(p0, s0, int (length (map geo_frame_idx xs)),
                           int (length (map geo_frame_idx xs)) - s0)])"
      by simp
    from snoc.prems(2) False st
    have step: "runs_step (runs0, p0, s0) (int (length xs), x) = (runs, p, s)"
      by (simp add: enumerate_py_snoc)
    show ?thesis
    proof (cases "geo_frame_idx x = p0")
      case True
      with step have "runs = runs0" "p = p0" "s = s0"
        by (auto simp: runs_step_def)
      with run_partition_extend[OF ih] True show ?thesis
        by (simp add: add.commute)
    next
      case neq: False
      with step have "runs = runs0 @ [(p0, s0, int (length xs), int (length xs) - s0)]"
        "p = geo_frame_idx x" "s = int (length xs)"
        by (auto simp: runs_step_def)
      with run_partition_new[OF ih neq] show ?thesis
        by (simp add: add.commute)
    qed
  qed
qed

lemma build_runs_partition:
  assumes "path_frames \<noteq> []"
  shows "\<exists>runs. build_runs path_frames = Inr runs \<and> runs \<noteq> [] \<and>
           is_run_partition (map geo_frame_idx path_frames) runs"
proof -
  obtain pf0 rest where pf: "path_frames = pf0 # rest"
    using assms by (cases path_frames) auto
  obtain runs p s where st:
    "foldl runs_step ([], geo_frame_idx (hd path_frames), 0) (enumerate_py path_frames)
       = (runs, p, s)"
    by (metis prod_cases3)
  from runs_fold_partition[OF assms st] st pf show ?thesis
    by (simp add: build_runs_def)
qed

lemma run_partition_nth:
  assumes "is_run_partition geos runs" "ri < length runs"
  shows "1 \<le> r_len (runs ! ri)" "r_end (runs ! ri) = r_start (runs ! ri) + r_len (runs ! ri)"
  using assms nth_mem[OF assms(2)] unfolding is_run_partition_def by blast+

lemma run_partition_start_mono:
  assumes "is_run_partition geos runs" "rj < length runs" "ri < rj"
  shows "r_end (runs ! ri) \<le> r_start (runs ! rj)"
  using assms(2,3)
proof (induction rj)
  case 0
  then show ?case by simp
next
  case (Suc rj)
  from assms(1) Suc.prems have adj: "r_start (runs ! Suc rj) = r_end (runs ! rj)"
    by (auto simp: is_run_partition_def)
  from run_partition_nth[OF assms(1), of rj] Suc.prems
  have pos: "r_start (runs ! rj) \<le> r_end (runs ! rj)"
    by simp
  show ?case
  proof (cases "ri = rj")
    case True
    with adj show ?thesis by simp
  next
    case False
    with Suc have "r_end (runs ! ri) \<le> r_start (runs ! rj)" by simp
    with adj pos show ?thesis by simp
  qed
qed

lemma run_partition_bounds:
  assumes "is_run_partition geos runs" "ri < length runs"
  shows "0 \<le> r_start (runs ! ri)" "r_end (runs ! ri) \<le> int (length geos)"
    "1 \<le> r_len (runs ! ri)" "r_end (runs ! ri) = r_start (runs ! ri) + r_len (runs ! ri)"
proof -
  from assms have ne: "runs \<noteq> []" by auto
  from run_partition_nth[OF assms] show len: "1 \<le> r_len (runs ! ri)"
    and e: "r_end (runs ! ri) = r_start (runs ! ri) + r_len (runs ! ri)"
    by simp_all
  from assms(1) ne have h: "r_start (runs ! 0) = 0" "r_end (runs ! (length runs - 1)) = int (length geos)"
    by (simp_all add: is_run_partition_def hd_conv_nth last_conv_nth)
  from run_partition_nth[OF assms(1), of 0] ne
  have e0: "r_end (runs ! 0) = r_start (runs ! 0) + r_len (runs ! 0)" "1 \<le> r_len (runs ! 0)"
    by simp_all
  show "0 \<le> r_start (runs ! ri)"
  proof (cases "ri = 0")
    case True with h show ?thesis by simp
  next
    case False
    with run_partition_start_mono[OF assms(1,2), of 0] h e0 show ?thesis by simp
  qed
  show "r_end (runs ! ri) \<le> int (length geos)"
  proof (cases "ri = length runs - 1")
    case True with h show ?thesis by simp
  next
    case False
    with assms(2) have lt: "ri < length runs - 1" by simp
    from run_partition_nth[OF assms(1), of "length runs - 1"] ne
    have "r_start (runs ! (length runs - 1)) \<le> r_end (runs ! (length runs - 1))"
      by simp
    with run_partition_start_mono[OF assms(1) _ lt] ne h show ?thesis by simp
  qed
qed

lemma window_stores_keys:
  assumes "half = min (min (r_len out_run div 2) (r_len in_run div 2)) h"
  shows "map fst (window_stores out_run in_run h) =
           map (\<lambda>k. (r_start in_run - half) + int k) [0..<nat (2 * half)]"
proof (cases "half < 1")
  case True
  then show ?thesis
    unfolding window_stores_def Let_def assms[symmetric] by simp
next
  case False
  then show ?thesis
    unfolding window_stores_def Let_def assms[symmetric] by (simp add: comp_def)
qed

lemma int_shift_image: "(\<lambda>k. a + int k) ` {0..<nat w} = {a ..< a + w}"
proof -
  have "(\<lambda>k. a + int k) ` {0..<nat w} = (\<lambda>x. x + a) ` (int ` {0..<nat w})"
    by (simp add: image_image add.commute)
  also have "int ` {0..<nat w} = {0..<int (nat w)}"
    by (simp add: image_int_atLeastLessThan)
  also have "(\<lambda>x. x + a) ` {0..<int (nat w)} = {a ..< a + w}"
    by (cases "0 \<le> w") (simp_all add: add.commute)
  finally show ?thesis .
qed

lemma window_stores_key_set:
  assumes "half = min (min (r_len out_run div 2) (r_len in_run div 2)) h"
  shows "fst ` set (window_stores out_run in_run h) =
           {r_start in_run - half ..< r_start in_run + half}"
proof -
  have "fst ` set (window_stores out_run in_run h) = set (map fst (window_stores out_run in_run h))"
    by simp
  also have "\<dots> = (\<lambda>k. (r_start in_run - half) + int k) ` {0..<nat (2 * half)}"
    unfolding window_stores_keys[OF assms] by simp
  also have "\<dots> = {r_start in_run - half ..< r_start in_run - half + 2 * half}"
    by (rule int_shift_image)
  also have "r_start in_run - half + 2 * half = r_start in_run + half" by simp
  finally show ?thesis .
qed

lemma window_stores_distinct: "distinct (map fst (window_stores out_run in_run h))"
proof -
  define half where "half = min (min (r_len out_run div 2) (r_len in_run div 2)) h"
  have inj: "inj_on (\<lambda>k. (r_start in_run - half) + int k) (set [0..<nat (2 * half)])"
    by (rule inj_onI) simp
  show ?thesis
    unfolding window_stores_keys[OF half_def] distinct_map using inj by simp
qed

lemma window_disjoint_arith:
  fixes s l l' half k k' :: int
  assumes "1 \<le> l" "1 \<le> l'" "half \<le> l div 2" "half \<le> l' div 2" "0 \<le> s"
  shows "s + l div 2 \<le> s + l - half" "s + l + half \<le> s + l + l' div 2" "0 \<le> l' div 2"
    "s + l div 2 \<le> s + l" "0 \<le> s + l div 2" "s + l + l' div 2 \<le> s + l + l'"
  using assms by linarith+

lemma stores_prefix:
  assumes P: "is_run_partition geos runs" and j: "j < length runs"
  shows "distinct (map fst (concat (map (\<lambda>ri. window_stores (runs ! ri) (runs ! (ri + 1)) h) [0..<j])))
     \<and> (\<forall>k \<in> fst ` set (concat (map (\<lambda>ri. window_stores (runs ! ri) (runs ! (ri + 1)) h) [0..<j])).
           0 \<le> k \<and> k < r_start (runs ! j) + r_len (runs ! j) div 2)"
  using j
proof (induction j)
  case 0
  then show ?case by simp
next
  case (Suc j)
  let ?W = "\<lambda>ri. window_stores (runs ! ri) (runs ! (ri + 1)) h"
  let ?old = "concat (map ?W [0..<j])"
  define half where "half = min (min (r_len (runs ! j) div 2) (r_len (runs ! (j + 1)) div 2)) h"
  define s where "s = r_start (runs ! j)"
  define l where "l = r_len (runs ! j)"
  define l' where "l' = r_len (runs ! (j + 1))"
  from Suc.prems have jl: "j < length runs" by simp
  from Suc.IH[OF jl] have dold: "distinct (map fst ?old)"
    and bold: "\<And>k. k \<in> fst ` set ?old \<Longrightarrow> 0 \<le> k \<and> k < s + l div 2"
    unfolding s_def l_def by blast+
  have keys: "fst ` set (?W j) = {r_start (runs ! (j + 1)) - half ..< r_start (runs ! (j + 1)) + half}"
    by (rule window_stores_key_set[OF half_def])
  from P Suc.prems have adj: "r_start (runs ! (j + 1)) = r_end (runs ! j)"
    by (simp add: is_run_partition_def)
  from run_partition_nth[OF P jl] have l1: "1 \<le> l" and e: "r_end (runs ! j) = s + l"
    unfolding s_def l_def by simp_all
  from run_partition_nth[OF P Suc.prems] have l1': "1 \<le> l'"
    unfolding l'_def by simp
  from run_partition_bounds(1)[OF P jl] have s0: "0 \<le> s" unfolding s_def .
  have hl: "half \<le> l div 2" "half \<le> l' div 2"
    unfolding half_def l_def l'_def by simp_all
  note ar = window_disjoint_arith[OF l1 l1' hl s0]
  have t: "r_start (runs ! (j + 1)) = s + l" using adj e by simp
  have keys': "fst ` set (?W j) = {s + l - half ..< s + l + half}"
    using keys t by simp
  have split: "concat (map ?W [0..<Suc j]) = ?old @ ?W j" by simp
  have disj: "fst ` set ?old \<inter> fst ` set (?W j) = {}"
  proof (rule ccontr)
    assume "fst ` set ?old \<inter> fst ` set (?W j) \<noteq> {}"
    then obtain k where k1: "k \<in> fst ` set ?old" and k2: "k \<in> fst ` set (?W j)" by blast
    from bold[OF k1] have "k < s + l div 2" by simp
    moreover from k2 keys' have "s + l - half \<le> k" by simp
    ultimately show False using ar(1) by linarith
  qed
  have d: "distinct (map fst (concat (map ?W [0..<Suc j])))"
    unfolding split using dold window_stores_distinct[of "runs ! j" "runs ! (j + 1)" h] disj
    by simp
  have b: "\<forall>k \<in> fst ` set (concat (map ?W [0..<Suc j])).
             0 \<le> k \<and> k < r_start (runs ! Suc j) + r_len (runs ! Suc j) div 2"
  proof
    fix k assume "k \<in> fst ` set (concat (map ?W [0..<Suc j]))"
    then have "k \<in> fst ` set ?old \<or> k \<in> fst ` set (?W j)"
      unfolding split by auto
    then have "0 \<le> k \<and> k < s + l + l' div 2"
    proof
      assume "k \<in> fst ` set ?old"
      from bold[OF this] ar show ?thesis by linarith
    next
      assume "k \<in> fst ` set (?W j)"
      with keys' have "s + l - half \<le> k" "k < s + l + half" by simp_all
      with ar show ?thesis by linarith
    qed
    then show "0 \<le> k \<and> k < r_start (runs ! Suc j) + r_len (runs ! Suc j) div 2"
      using t unfolding l'_def by simp
  qed
  from d b show ?case by blast
qed

lemma crossfade_stores_distinct_bounded:
  assumes P: "is_run_partition geos runs" and ne: "runs \<noteq> []"
  shows "distinct (map fst (crossfade_stores runs h))"
    and "\<forall>k \<in> fst ` set (crossfade_stores runs h). 0 \<le> k \<and> k < int (length geos)"
proof -
  from ne have j: "length runs - 1 < length runs" by simp
  note sp = stores_prefix[OF P j, of h, folded crossfade_stores_def]
  from sp show "distinct (map fst (crossfade_stores runs h))" by blast
  from run_partition_nth[OF P j] run_partition_bounds(2)[OF P j]
  have "r_start (runs ! (length runs - 1)) + r_len (runs ! (length runs - 1)) div 2 \<le> int (length geos)"
    by linarith
  with sp show "\<forall>k \<in> fst ` set (crossfade_stores runs h). 0 \<le> k \<and> k < int (length geos)"
    by fastforce
qed

lemma dict_stores_snoc: "dict_stores (kvs @ [kv]) = (dict_stores kvs)(fst kv \<mapsto> snd kv)"
  by (simp add: dict_stores_def dict_store_def)

lemma dict_stores_Nil: "dict_stores [] = Map.empty"
  by (simp add: dict_stores_def)

lemma dict_stores_dom: "dom (dict_stores kvs) = fst ` set kvs"
proof (induction kvs rule: rev_induct)
  case Nil
  then show ?case by (simp add: dict_stores_Nil)
next
  case (snoc kv kvs)
  have "dom (dict_stores (kvs @ [kv])) = insert (fst kv) (dom (dict_stores kvs))"
    by (simp add: dict_stores_snoc)
  with snoc show ?case by simp
qed

lemma dict_stores_distinct:
  "distinct (map fst kvs) \<Longrightarrow> dict_stores kvs k = Some v \<longleftrightarrow> (k, v) \<in> set kvs"
proof (induction kvs rule: rev_induct)
  case Nil
  then show ?case by (simp add: dict_stores_Nil)
next
  case (snoc kv kvs)
  then have d: "distinct (map fst kvs)" and nin: "fst kv \<notin> fst ` set kvs" by simp_all
  show ?case
  proof (cases "k = fst kv")
    case True
    with nin have "(k, v) \<notin> set kvs" by (metis fst_conv image_eqI)
    with True show ?thesis
      by (cases kv) (auto simp: dict_stores_snoc)
  next
    case False
    with snoc.IH[OF d] show ?thesis
      by (cases kv) (auto simp: dict_stores_snoc)
  qed
qed

lemma window_stores_mem:
  assumes "half = min (min (r_len out_run div 2) (r_len in_run div 2)) h"
  shows "(idx, v) \<in> set (window_stores out_run in_run h) \<longleftrightarrow>
           1 \<le> half \<and> (\<exists>k. 0 \<le> k \<and> k < 2 * half \<and> idx = r_start in_run - half + k \<and>
              v = (r_geo out_run, r_geo in_run, (of_int k + 1) / (2 * of_int half + 1)))"
proof (cases "half < 1")
  case True
  then show ?thesis
    unfolding window_stores_def Let_def assms[symmetric] by simp
next
  case False
  let ?f = "\<lambda>k::int. (r_start in_run - half + k,
              (r_geo out_run, r_geo in_run, (of_int k + 1) / (of_int (2 * half) + 1 :: real)))"
  have "set (window_stores out_run in_run h) = ?f ` (int ` {0..<nat (2 * half)})"
    using False unfolding window_stores_def Let_def assms[symmetric]
    by (simp add: image_image)
  also have "int ` {0..<nat (2 * half)} = {0..<2 * half}"
    using False by (simp add: image_int_atLeastLessThan)
  finally have "set (window_stores out_run in_run h) = ?f ` {0..<2 * half}" .
  then show ?thesis using False by (auto simp: image_iff)
qed

lemma crossfade_stores_mem:
  "kv \<in> set (crossfade_stores runs h) \<longleftrightarrow>
     (\<exists>ri. ri + 1 < length runs \<and> kv \<in> set (window_stores (runs ! ri) (runs ! (ri + 1)) h))"
proof -
  have "\<And>ri. ri < length runs - 1 \<longleftrightarrow> ri + 1 < length runs" by auto
  then show ?thesis unfolding crossfade_stores_def by (simp add: Bex_def)
qed

lemma concat_distinct_disjoint:
  "distinct (concat (map f [0..<n])) \<Longrightarrow> i < j \<Longrightarrow> j < n \<Longrightarrow> set (f i) \<inter> set (f j) = {}"
proof (induction n)
  case 0
  then show ?case by simp
next
  case (Suc n)
  from Suc.prems(1) have d: "distinct (concat (map f [0..<n]))"
    and dis: "set (concat (map f [0..<n])) \<inter> set (f n) = {}"
    by simp_all
  show ?case
  proof (cases "j = n")
    case True
    with Suc.prems(2) have "set (f i) \<subseteq> set (concat (map f [0..<n]))" by auto
    with dis True show ?thesis by blast
  next
    case False
    with Suc.prems have "j < n" by simp
    from Suc.IH[OF d Suc.prems(2) this] show ?thesis .
  qed
qed

lemma runs_fold_geos:
  "map geo_frame_idx xs = map geo_frame_idx ys \<Longrightarrow>
   foldl runs_step st (zip is xs) = foldl runs_step st (zip is ys)"
proof (induction xs arbitrary: ys "is" st)
  case Nil
  then show ?case by simp
next
  case (Cons x xs)
  then obtain y ys' where ys: "ys = y # ys'" "geo_frame_idx x = geo_frame_idx y"
    "map geo_frame_idx xs = map geo_frame_idx ys'"
    by (cases ys) auto
  show ?case
  proof (cases "is")
    case Nil
    then show ?thesis by simp
  next
    case (Cons i is')
    have "runs_step st (i, x) = runs_step st (i, y)"
      using ys(2) by (simp add: runs_step_def split: prod.splits)
    with Cons.IH[OF ys(3)] Cons ys(1) show ?thesis by simp
  qed
qed

lemma build_runs_geos:
  assumes "map geo_frame_idx xs = map geo_frame_idx ys"
  shows "build_runs xs = build_runs ys"
proof -
  from assms have len: "length xs = length ys" by (rule map_eq_imp_length_eq)
  show ?thesis
  proof (cases xs)
    case Nil
    with assms show ?thesis by simp
  next
    case (Cons x xs')
    with assms obtain y ys' where ys: "ys = y # ys'" "geo_frame_idx x = geo_frame_idx y"
      by (cases ys) auto
    from runs_fold_geos[OF assms] len Cons ys show ?thesis
      unfolding build_runs_def enumerate_py_def by simp
  qed
qed

lemma upt_4: "[0..<4] = [0, 1, 2, 3]"
  by (simp add: upt_rec)

lemma build_runs_two_runs:
  assumes "a \<noteq> b" "map geo_frame_idx xs = replicate 10 a @ replicate 10 b"
  shows "build_runs xs = Inr [(a, 0, 10, 10), (b, 10, 20, 10)]"
proof -
  define mk where "mk = (\<lambda>g. \<lparr>anim_frame = 0, time_ma = 0, geo_frame_idx = g, camera_lon = 0,
     camera_lat = 0, dispersal = 0, era_label = []\<rparr>)"
  have g: "\<And>g. geo_frame_idx (mk g) = g" by (simp add: mk_def)
  have "map geo_frame_idx xs = map geo_frame_idx (map mk (replicate 10 a @ replicate 10 b))"
    using assms(2) by (simp add: g comp_def)
  from build_runs_geos[OF this]
  have "build_runs xs = build_runs (map mk (replicate 10 a @ replicate 10 b))" .
  also have "\<dots> = Inr [(a, 0, 10, 10), (b, 10, 20, 10)]"
    using assms(1)
    by (simp add: build_runs_def enumerate_py_def runs_step_def g numeral_eq_Suc upt_rec)
  finally show ?thesis .
qed

lemma two_runs_stores:
  "crossfade_stores [(a, 0, 10, 10), (b, 10, 20, 10)] 2 =
     [(8, (a, b, 1/5)), (9, (a, b, 2/5)), (10, (a, b, 3/5)), (11, (a, b, 4/5))]"
  by (simp add: crossfade_stores_def window_stores_def upt_4)

lemma alpha_bounds:
  fixes k half :: int
  assumes "0 \<le> k" "k < 2 * half"
  shows "0 < (of_int k + 1) / (2 * of_int half + 1 :: real)"
    and "(of_int k + 1) / (2 * of_int half + 1 :: real) < 1"
proof -
  from assms have k0: "(0::real) \<le> of_int k" by simp
  from assms(2) have "(of_int k :: real) < of_int (2 * half)" by (simp only: of_int_less_iff)
  then have kh: "(of_int k :: real) < 2 * of_int half" by simp
  from k0 kh have pos: "(0::real) < 2 * of_int half + 1" by linarith
  from k0 pos show "0 < (of_int k + 1) / (2 * of_int half + 1 :: real)" by simp
  from kh pos show "(of_int k + 1) / (2 * of_int half + 1 :: real) < 1" by simp
qed

lemma alpha_mono:
  fixes k k' half :: int
  assumes "0 \<le> k" "k < k'" "k' < 2 * half"
  shows "(of_int k + 1) / (2 * of_int half + 1 :: real) < (of_int k' + 1) / (2 * of_int half + 1)"
proof -
  from assms have "(of_int k' :: real) < of_int (2 * half)" "(0::real) \<le> of_int k'"
    by (simp_all only: of_int_less_iff of_int_0_le_iff)
  then have pos: "(0::real) < 2 * of_int half + 1" by simp
  from assms(2) have "(of_int k :: real) < of_int k'" by simp
  with pos show ?thesis by (simp add: divide_strict_right_mono)
qed

lemma schedule_lookup:
  assumes P: "is_run_partition geos runs" and ne: "runs \<noteq> []"
  shows "dict_stores (crossfade_stores runs h) idx = Some v \<longleftrightarrow>
     (\<exists>ri k. ri + 1 < length runs \<and> 1 \<le> window_half runs h ri \<and> 0 \<le> k \<and>
        k < 2 * window_half runs h ri \<and>
        idx = r_start (runs ! (ri + 1)) - window_half runs h ri + k \<and>
        v = (r_geo (runs ! ri), r_geo (runs ! (ri + 1)),
             (of_int k + 1) / (2 * of_int (window_half runs h ri) + 1)))"
  unfolding dict_stores_distinct[OF crossfade_stores_distinct_bounded(1)[OF P ne]]
    crossfade_stores_mem window_stores_mem[OF window_half_def]
  by blast

lemma schedule_empty: "compute_crossfade_schedule [] h = Inl IndexError"
  by (simp add: compute_crossfade_schedule_def build_runs_def)

text \<open>
  Claim C1. On the empty sequence \<open>compute_crossfade_schedule\<close> raises IndexError. On a
  non-empty sequence the runs it builds are the maximal runs of equal \<open>geo_frame_idx\<close>, and
  for every adjacent pair of runs (outgoing \<open>ri\<close>, incoming \<open>ri + 1\<close>), with
  \<open>half = min(len(outgoing) // 2, len(incoming) // 2, half_window)\<close>: if \<open>half < 1\<close> the
  boundary makes no assignment; otherwise frame \<open>transition - half + k\<close>, for
  \<open>k = 0 .. 2 * half - 1\<close> and \<open>transition\<close> the first index of the incoming run, carries
  (outgoing geo index, incoming geo index, \<open>(k + 1) / (2 * half + 1)\<close>). No other frame is
  assigned, every blend factor lies strictly between 0 and 1, and the factors increase
  across a window. For two runs of length 10 and 10 with half window 2 the map has exactly
  the four entries 8, 9, 10, 11 with factors 1/5, 2/5, 3/5, 4/5.
\<close>

theorem crossfade_schedule_windows:
  "(path_frames = [] \<longrightarrow> compute_crossfade_schedule path_frames h = Inl IndexError) \<and>
   (path_frames \<noteq> [] \<longrightarrow>
     (\<exists>runs m.
        build_runs path_frames = Inr runs \<and>
        is_run_partition (map geo_frame_idx path_frames) runs \<and>
        compute_crossfade_schedule path_frames h = Inr m \<and>
        (\<forall>ri. ri + 1 < length runs \<longrightarrow>
           (window_half runs h ri < 1 \<longrightarrow>
              window_stores (runs ! ri) (runs ! (ri + 1)) h = []) \<and>
           (1 \<le> window_half runs h ri \<longrightarrow>
              (\<forall>k. 0 \<le> k \<and> k < 2 * window_half runs h ri \<longrightarrow>
                 m (r_start (runs ! (ri + 1)) - window_half runs h ri + k) =
                   Some (r_geo (runs ! ri), r_geo (runs ! (ri + 1)),
                         (of_int k + 1) / (2 * of_int (window_half runs h ri) + 1))))) \<and>
        (\<forall>idx v. m idx = Some v \<longrightarrow>
           (\<exists>ri k. ri + 1 < length runs \<and> 1 \<le> window_half runs h ri \<and> 0 \<le> k \<and>
              k < 2 * window_half runs h ri \<and>
              idx = r_start (runs ! (ri + 1)) - window_half runs h ri + k \<and>
              v = (r_geo (runs ! ri), r_geo (runs ! (ri + 1)),
                   (of_int k + 1) / (2 * of_int (window_half runs h ri) + 1)))) \<and>
        (\<forall>idx a b \<alpha>. m idx = Some (a, b, \<alpha>) \<longrightarrow> 0 < \<alpha> \<and> \<alpha> < 1) \<and>
        (\<forall>ri k k' v v'. ri + 1 < length runs \<and> 0 \<le> k \<and> k < k' \<and>
             k' < 2 * window_half runs h ri \<and>
             m (r_start (runs ! (ri + 1)) - window_half runs h ri + k) = Some v \<and>
             m (r_start (runs ! (ri + 1)) - window_half runs h ri + k') = Some v'
           \<longrightarrow> snd (snd v) < snd (snd v')) \<and>
        (\<forall>a b. h = 2 \<and> a \<noteq> b \<and>
             map geo_frame_idx path_frames = replicate 10 a @ replicate 10 b
           \<longrightarrow> m = [8 \<mapsto> (a, b, 1/5), 9 \<mapsto> (a, b, 2/5), 10 \<mapsto> (a, b, 3/5),
                     11 \<mapsto> (a, b, 4/5)])))"
proof (intro conjI impI)
  assume "path_frames = []"
  then show "compute_crossfade_schedule path_frames h = Inl IndexError"
    by (simp add: schedule_empty)
next
  assume "path_frames \<noteq> []"
  from build_runs_partition[OF this] obtain runs where
    br: "build_runs path_frames = Inr runs" and ne: "runs \<noteq> []" and
    P: "is_run_partition (map geo_frame_idx path_frames) runs"
    by blast
  define m where "m = dict_stores (crossfade_stores runs h)"
  note look = schedule_lookup[OF P ne, of h, folded m_def]
  have cs: "compute_crossfade_schedule path_frames h = Inr m"
    by (simp add: compute_crossfade_schedule_def br m_def)
  have w1: "\<forall>ri. ri + 1 < length runs \<longrightarrow>
           (window_half runs h ri < 1 \<longrightarrow>
              window_stores (runs ! ri) (runs ! (ri + 1)) h = []) \<and>
           (1 \<le> window_half runs h ri \<longrightarrow>
              (\<forall>k. 0 \<le> k \<and> k < 2 * window_half runs h ri \<longrightarrow>
                 m (r_start (runs ! (ri + 1)) - window_half runs h ri + k) =
                   Some (r_geo (runs ! ri), r_geo (runs ! (ri + 1)),
                         (of_int k + 1) / (2 * of_int (window_half runs h ri) + 1))))"
  proof (intro allI impI conjI)
    fix ri assume "window_half runs h ri < 1"
    then show "window_stores (runs ! ri) (runs ! (ri + 1)) h = []"
      unfolding window_stores_def Let_def window_half_def by simp
  next
    fix ri k
    assume "ri + 1 < length runs" "1 \<le> window_half runs h ri"
      "0 \<le> k \<and> k < 2 * window_half runs h ri"
    then show "m (r_start (runs ! (ri + 1)) - window_half runs h ri + k) =
                   Some (r_geo (runs ! ri), r_geo (runs ! (ri + 1)),
                         (of_int k + 1) / (2 * of_int (window_half runs h ri) + 1))"
      unfolding look by blast
  qed
  have w2: "\<forall>idx v. m idx = Some v \<longrightarrow>
           (\<exists>ri k. ri + 1 < length runs \<and> 1 \<le> window_half runs h ri \<and> 0 \<le> k \<and>
              k < 2 * window_half runs h ri \<and>
              idx = r_start (runs ! (ri + 1)) - window_half runs h ri + k \<and>
              v = (r_geo (runs ! ri), r_geo (runs ! (ri + 1)),
                   (of_int k + 1) / (2 * of_int (window_half runs h ri) + 1)))"
    unfolding look by blast
  have w3: "\<forall>idx a b \<alpha>. m idx = Some (a, b, \<alpha>) \<longrightarrow> 0 < \<alpha> \<and> \<alpha> < 1"
  proof (intro allI impI)
    fix idx a b \<alpha> assume "m idx = Some (a, b, \<alpha>)"
    with w2 obtain ri k where "0 \<le> k" "k < 2 * window_half runs h ri"
      "\<alpha> = (of_int k + 1) / (2 * of_int (window_half runs h ri) + 1)"
      by blast
    with alpha_bounds[of k "window_half runs h ri"] show "0 < \<alpha> \<and> \<alpha> < 1" by simp
  qed
  have w4: "\<forall>ri k k' v v'. ri + 1 < length runs \<and> 0 \<le> k \<and> k < k' \<and>
             k' < 2 * window_half runs h ri \<and>
             m (r_start (runs ! (ri + 1)) - window_half runs h ri + k) = Some v \<and>
             m (r_start (runs ! (ri + 1)) - window_half runs h ri + k') = Some v'
           \<longrightarrow> snd (snd v) < snd (snd v')"
  proof (intro allI impI, elim conjE)
    fix ri k k' v v'
    assume a: "ri + 1 < length runs" "0 \<le> k" "k < k'" "k' < 2 * window_half runs h ri"
      and mv: "m (r_start (runs ! (ri + 1)) - window_half runs h ri + k) = Some v"
      and mv': "m (r_start (runs ! (ri + 1)) - window_half runs h ri + k') = Some v'"
    from a have h1: "1 \<le> window_half runs h ri" by linarith
    from a have kk: "0 \<le> k \<and> k < 2 * window_half runs h ri"
      "0 \<le> k' \<and> k' < 2 * window_half runs h ri" by simp_all
    from w1 a(1) h1 kk(1) mv
    have v: "v = (r_geo (runs ! ri), r_geo (runs ! (ri + 1)),
                  (of_int k + 1) / (2 * of_int (window_half runs h ri) + 1))"
      by simp
    from w1 a(1) h1 kk(2) mv'
    have v': "v' = (r_geo (runs ! ri), r_geo (runs ! (ri + 1)),
                  (of_int k' + 1) / (2 * of_int (window_half runs h ri) + 1))"
      by simp
    from alpha_mono[OF a(2,3,4)] show "snd (snd v) < snd (snd v')"
      unfolding v v' by simp
  qed
  have w5: "\<forall>a b. h = 2 \<and> a \<noteq> b \<and>
             map geo_frame_idx path_frames = replicate 10 a @ replicate 10 b
           \<longrightarrow> m = [8 \<mapsto> (a, b, 1/5), 9 \<mapsto> (a, b, 2/5), 10 \<mapsto> (a, b, 3/5),
                     11 \<mapsto> (a, b, 4/5)]"
  proof (intro allI impI, elim conjE)
    fix a b assume a: "h = 2" "a \<noteq> b"
      "map geo_frame_idx path_frames = replicate 10 a @ replicate 10 b"
    from build_runs_two_runs[OF a(2,3)] br have "runs = [(a, 0, 10, 10), (b, 10, 20, 10)]"
      by simp
    then show "m = [8 \<mapsto> (a, b, 1/5), 9 \<mapsto> (a, b, 2/5), 10 \<mapsto> (a, b, 3/5),
                     11 \<mapsto> (a, b, 4/5)]"
      unfolding m_def a(1) by (simp add: two_runs_stores dict_stores_def dict_store_def)
  qed
  from br P cs w1 w2 w3 w4 w5
  show "\<exists>runs m.
        build_runs path_frames = Inr runs \<and>
        is_run_partition (map geo_frame_idx path_frames) runs \<and>
        compute_crossfade_schedule path_frames h = Inr m \<and>
        (\<forall>ri. ri + 1 < length runs \<longrightarrow>
           (window_half runs h ri < 1 \<longrightarrow>
              window_stores (runs ! ri) (runs ! (ri + 1)) h = []) \<and>
           (1 \<le> window_half runs h ri \<longrightarrow>
              (\<forall>k. 0 \<le> k \<and> k < 2 * window_half runs h ri \<longrightarrow>
                 m (r_start (runs ! (ri + 1)) - window_half runs h ri + k) =
                   Some (r_geo (runs ! ri), r_geo (runs ! (ri + 1)),
                         (of_int k + 1) / (2 * of_int (window_half runs h ri) + 1))))) \<and>
        (\<forall>idx v. m idx = Some v \<longrightarrow>
           (\<exists>ri k. ri + 1 < length runs \<and> 1 \<le> window_half runs h ri \<and> 0 \<le> k \<and>
              k < 2 * window_half runs h ri \<and>
              idx = r_start (runs ! (ri + 1)) - window_half runs h ri + k \<and>
              v = (r_geo (runs ! ri), r_geo (runs ! (ri + 1)),
                   (of_int k + 1) / (2 * of_int (window_half runs h ri) + 1)))) \<and>
        (\<forall>idx a b \<alpha>. m idx = Some (a, b, \<alpha>) \<longrightarrow> 0 < \<alpha> \<and> \<alpha> < 1) \<and>
        (\<forall>ri k k' v v'. ri + 1 < length runs \<and> 0 \<le> k \<and> k < k' \<and>
             k' < 2 * window_half runs h ri \<and>
             m (r_start (runs ! (ri + 1)) - window_half runs h ri + k) = Some v \<and>
             m (r_start (runs ! (ri + 1)) - window_half runs h ri + k') = Some v'
           \<longrightarrow> snd (snd v) < snd (snd v')) \<and>
        (\<forall>a b. h = 2 \<and> a \<noteq> b \<and>
             map geo_frame_idx path_frames = replicate 10 a @ replicate 10 b
           \<longrightarrow> m = [8 \<mapsto> (a, b, 1/5), 9 \<mapsto> (a, b, 2/5), 10 \<mapsto> (a, b, 3/5),
                     11 \<mapsto> (a, b, 4/5)])"
    by (intro exI[of _ runs] exI[of _ m] conjI)
qed

text \<open>The theorem at two runs of ten frames each, half window 2.\<close>

theorem crossfade_schedule_windows_witness:
  "map (\<lambda>g. \<lparr>anim_frame = 0, time_ma = 0, geo_frame_idx = g, camera_lon = 0, camera_lat = 0,
              dispersal = 0, era_label = []\<rparr>) (replicate 10 0 @ replicate 10 1) \<noteq> [] \<and>
   compute_crossfade_schedule
     (map (\<lambda>g. \<lparr>anim_frame = 0, time_ma = 0, geo_frame_idx = g, camera_lon = 0, camera_lat = 0,
                dispersal = 0, era_label = []\<rparr>) (replicate 10 0 @ replicate 10 1)) 2
     = Inr [8 \<mapsto> (0, 1, 1/5), 9 \<mapsto> (0, 1, 2/5), 10 \<mapsto> (0, 1, 3/5), 11 \<mapsto> (0, 1, 4/5)]"
proof -
  let ?fs = "map (\<lambda>g. \<lparr>anim_frame = 0, time_ma = 0, geo_frame_idx = g, camera_lon = 0,
     camera_lat = 0, dispersal = 0, era_label = []\<rparr>) (replicate 10 (0::nat) @ replicate 10 1)"
  have ne: "?fs \<noteq> []" by simp
  have geos: "(2::int) = 2 \<and> (0::nat) \<noteq> 1 \<and>
      map geo_frame_idx ?fs = replicate 10 0 @ replicate 10 1"
    by (simp add: comp_def)
  from crossfade_schedule_windows[of ?fs 2] ne obtain m where
    m: "compute_crossfade_schedule ?fs 2 = Inr m" and
    ex: "\<forall>a b. (2::int) = 2 \<and> a \<noteq> b \<and>
             map geo_frame_idx ?fs = replicate 10 a @ replicate 10 b
           \<longrightarrow> m = [8 \<mapsto> (a, b, 1/5), 9 \<mapsto> (a, b, 2/5), 10 \<mapsto> (a, b, 3/5),
                     11 \<mapsto> (a, b, 4/5)]"
    by blast
  from ex geos have "m = [8 \<mapsto> (0, 1, 1/5), 9 \<mapsto> (0, 1, 2/5), 10 \<mapsto> (0, 1, 3/5),
                     11 \<mapsto> (0, 1, 4/5)]"
    by blast
  with m ne show ?thesis by simp
qed

text \<open>
  Claim C10. The stores into \<open>crossfade_map\<close> all have different keys, so no entry is ever
  overwritten; the windows of two different boundaries share no frame; each boundary takes
  at most \<open>len // 2\<close> frames from each adjoining run; and every assigned frame index lies in
  \<open>[0, len(path_frames))\<close>.
\<close>

theorem crossfade_windows_disjoint:
  "(path_frames = [] \<longrightarrow> compute_crossfade_schedule path_frames h = Inl IndexError) \<and>
   (path_frames \<noteq> [] \<longrightarrow>
     (\<exists>runs. build_runs path_frames = Inr runs \<and>
        compute_crossfade_schedule path_frames h = Inr (dict_stores (crossfade_stores runs h)) \<and>
        distinct (map fst (crossfade_stores runs h)) \<and>
        (\<forall>ri rj. ri < rj \<and> rj + 1 < length runs \<longrightarrow>
           fst ` set (window_stores (runs ! ri) (runs ! (ri + 1)) h) \<inter>
           fst ` set (window_stores (runs ! rj) (runs ! (rj + 1)) h) = {}) \<and>
        (\<forall>ri. ri + 1 < length runs \<longrightarrow>
           window_half runs h ri \<le> r_len (runs ! ri) div 2 \<and>
           window_half runs h ri \<le> r_len (runs ! (ri + 1)) div 2) \<and>
        (\<forall>idx \<in> dom (dict_stores (crossfade_stores runs h)).
           0 \<le> idx \<and> idx < int (length path_frames))))"
proof (intro conjI impI)
  assume "path_frames = []"
  then show "compute_crossfade_schedule path_frames h = Inl IndexError"
    by (simp add: schedule_empty)
next
  assume "path_frames \<noteq> []"
  from build_runs_partition[OF this] obtain runs where
    br: "build_runs path_frames = Inr runs" and ne: "runs \<noteq> []" and
    P: "is_run_partition (map geo_frame_idx path_frames) runs"
    by blast
  note db = crossfade_stores_distinct_bounded[OF P ne, of h]
  have cs: "compute_crossfade_schedule path_frames h = Inr (dict_stores (crossfade_stores runs h))"
    by (simp add: compute_crossfade_schedule_def br)
  have dj: "\<forall>ri rj. ri < rj \<and> rj + 1 < length runs \<longrightarrow>
           fst ` set (window_stores (runs ! ri) (runs ! (ri + 1)) h) \<inter>
           fst ` set (window_stores (runs ! rj) (runs ! (rj + 1)) h) = {}"
  proof (intro allI impI, elim conjE)
    fix ri rj assume a: "ri < rj" "rj + 1 < length runs"
    let ?W = "\<lambda>ri. map fst (window_stores (runs ! ri) (runs ! (ri + 1)) h)"
    have "map fst (crossfade_stores runs h) = concat (map ?W [0..<length runs - 1])"
      unfolding crossfade_stores_def by (simp add: map_concat comp_def)
    with db(1) have "distinct (concat (map ?W [0..<length runs - 1]))" by simp
    from concat_distinct_disjoint[OF this a(1)] a(2)
    have "set (?W ri) \<inter> set (?W rj) = {}" by simp
    then show "fst ` set (window_stores (runs ! ri) (runs ! (ri + 1)) h) \<inter>
           fst ` set (window_stores (runs ! rj) (runs ! (rj + 1)) h) = {}"
      by simp
  qed
  have hb: "\<forall>ri. ri + 1 < length runs \<longrightarrow>
           window_half runs h ri \<le> r_len (runs ! ri) div 2 \<and>
           window_half runs h ri \<le> r_len (runs ! (ri + 1)) div 2"
    unfolding window_half_def by (simp add: min_le_iff_disj)
  have rg: "\<forall>idx \<in> dom (dict_stores (crossfade_stores runs h)).
           0 \<le> idx \<and> idx < int (length path_frames)"
    using db(2) unfolding dict_stores_dom by simp
  from br cs db(1) dj hb rg
  show "\<exists>runs. build_runs path_frames = Inr runs \<and>
        compute_crossfade_schedule path_frames h = Inr (dict_stores (crossfade_stores runs h)) \<and>
        distinct (map fst (crossfade_stores runs h)) \<and>
        (\<forall>ri rj. ri < rj \<and> rj + 1 < length runs \<longrightarrow>
           fst ` set (window_stores (runs ! ri) (runs ! (ri + 1)) h) \<inter>
           fst ` set (window_stores (runs ! rj) (runs ! (rj + 1)) h) = {}) \<and>
        (\<forall>ri. ri + 1 < length runs \<longrightarrow>
           window_half runs h ri \<le> r_len (runs ! ri) div 2 \<and>
           window_half runs h ri \<le> r_len (runs ! (ri + 1)) div 2) \<and>
        (\<forall>idx \<in> dom (dict_stores (crossfade_stores runs h)).
           0 \<le> idx \<and> idx < int (length path_frames))"
    by (intro exI[of _ runs] conjI)
qed

text \<open>The theorem at runs of lengths 4, 2 and 4, half window 2: windows \<open>{3, 4}\<close> and \<open>{5, 6}\<close>.\<close>

theorem crossfade_windows_disjoint_witness:
  "map (\<lambda>g. \<lparr>anim_frame = 0, time_ma = 0, geo_frame_idx = g, camera_lon = 0, camera_lat = 0,
              dispersal = 0, era_label = []\<rparr>) [0, 0, 0, 0, 1, 1, 2, 2, 2, 2] \<noteq> [] \<and>
   (\<exists>runs. build_runs (map (\<lambda>g. \<lparr>anim_frame = 0, time_ma = 0, geo_frame_idx = g,
              camera_lon = 0, camera_lat = 0, dispersal = 0, era_label = []\<rparr>)
              [0, 0, 0, 0, 1, 1, 2, 2, 2, 2]) = Inr runs \<and>
      runs = [(0, 0, 4, 4), (1, 4, 6, 2), (2, 6, 10, 4)] \<and>
      map fst (crossfade_stores runs 2) = [3, 4, 5, 6] \<and>
      distinct (map fst (crossfade_stores runs 2)) \<and>
      (\<forall>idx \<in> dom (dict_stores (crossfade_stores runs 2)). 0 \<le> idx \<and> idx < 10))"
proof -
  let ?fs = "map (\<lambda>g. \<lparr>anim_frame = 0, time_ma = 0, geo_frame_idx = g, camera_lon = 0,
     camera_lat = 0, dispersal = 0, era_label = []\<rparr>) [0, 0, 0, 0, 1, 1, 2, 2, 2, 2 :: nat]"
  have ne: "?fs \<noteq> []" by simp
  have br: "build_runs ?fs = Inr [(0, 0, 4, 4), (1, 4, 6, 2), (2, 6, 10, 4)]"
    by (simp add: build_runs_def enumerate_py_def runs_step_def upt_rec)
  have keys: "map fst (crossfade_stores [(0, 0, 4, 4), (1, 4, 6, 2), (2, 6, 10, 4)] 2) = [3, 4, 5, 6]"
    by (simp add: crossfade_stores_def window_stores_def upt_rec numeral_eq_Suc)
  from crossfade_windows_disjoint[of ?fs 2] ne br
  have "distinct (map fst (crossfade_stores [(0, 0, 4, 4), (1, 4, 6, 2), (2, 6, 10, 4)] 2)) \<and>
      (\<forall>idx \<in> dom (dict_stores (crossfade_stores [(0, 0, 4, 4), (1, 4, 6, 2), (2, 6, 10, 4)] 2)).
         0 \<le> idx \<and> idx < 10)"
    by simp
  with ne br keys show ?thesis by simp
qed

section \<open>Era blending\<close>





lemma interp_over_length [simp]: "length (interp_over f grid) = length grid"
  by (simp add: interp_over_def)

lemma interp_over_nth:
  "i < length grid \<Longrightarrow> interp_over f grid ! i = f (grid ! i)"
  by (simp add: interp_over_def rev_map[symmetric])

lemma interp1d_returns:
  "xs \<noteq> [] \<Longrightarrow> length ys = length xs \<Longrightarrow> interp1d xs ys = returns (interp1d_linear xs ys)"
  by (simp add: interp1d_def)

lemma era_target_value:
  assumes "time_step \<noteq> 0" "raw \<noteq> []" "length raw = n"
  shows "era_target time_start time_step n raw t target =
           returns (keyframe_value time_start time_step n raw t target)"
proof -
  let ?k = "max 0 (min (py_int (real_of_int (time_start - t) / real_of_int time_step)) (int n - 1))"
  from assms have "nat ?k < length raw" by (cases raw) auto
  with assms(1) show ?thesis
    by (cases target) (simp_all add: era_target_def clamp_idx_def keyframe_value_def)
qed

lemma era_targets_values:
  assumes "time_step \<noteq> 0" "raw \<noteq> []" "length raw = n"
  shows "era_targets time_start time_step n raw ts =
           returns (map (\<lambda>(t, target). keyframe_value time_start time_step n raw t target) ts)"
proof (induction ts)
  case Nil
  show ?case by simp
next
  case (Cons a ts)
  obtain t target where a: "a = (t, target)" by (cases a)
  show ?case
    unfolding a by (simp add: era_target_value[OF assms] Cons.IH)
qed

lemma era_targets_of_eras:
  assumes "time_step \<noteq> 0" "raw \<noteq> []" "length raw = n"
  shows "era_targets time_start time_step n raw (map (\<lambda>e. (e_time e, sel e)) eras) =
           returns (map (\<lambda>e. keyframe_value time_start time_step n raw (e_time e) (sel e)) eras)"
  unfolding era_targets_values[OF assms] by (simp add: comp_def)

text \<open>Without keyframes the first \<open>interp1d\<close> call raises.\<close>

lemma era_blend_no_keyframes:
  "era_blend [] time_start time_step time_grid raw_lon raw_lat = raises ValueError"
  by (simp add: era_blend_def interp1d_def)

lemma era_blend_result:
  assumes "time_step \<noteq> 0" and "time_grid \<noteq> []"
    and "length raw_lon = length time_grid" and "length raw_lat = length time_grid"
    and "eras \<noteq> []"
  shows "era_blend eras time_start time_step time_grid raw_lon raw_lat =
     returns
       \<lparr>override_weights =
          interp_over (interp1d_linear (rev (map (\<lambda>e. real_of_int (e_time e)) eras))
                                       (rev (map e_weight eras))) time_grid,
        override_lons =
          interp_over (interp1d_linear (rev (map (\<lambda>e. real_of_int (e_time e)) eras))
             (rev (map (\<lambda>e. keyframe_value time_start time_step (length time_grid) raw_lon
                               (e_time e) (e_lon e)) eras))) time_grid,
        override_lats =
          interp_over (interp1d_linear (rev (map (\<lambda>e. real_of_int (e_time e)) eras))
             (rev (map (\<lambda>e. keyframe_value time_start time_step (length time_grid) raw_lat
                               (e_time e) (e_lat e)) eras))) time_grid,
        blended_lons = blend raw_lon
          (interp_over (interp1d_linear (rev (map (\<lambda>e. real_of_int (e_time e)) eras))
                                        (rev (map e_weight eras))) time_grid)
          (interp_over (interp1d_linear (rev (map (\<lambda>e. real_of_int (e_time e)) eras))
             (rev (map (\<lambda>e. keyframe_value time_start time_step (length time_grid) raw_lon
                               (e_time e) (e_lon e)) eras))) time_grid),
        blended_lats = blend raw_lat
          (interp_over (interp1d_linear (rev (map (\<lambda>e. real_of_int (e_time e)) eras))
                                        (rev (map e_weight eras))) time_grid)
          (interp_over (interp1d_linear (rev (map (\<lambda>e. real_of_int (e_time e)) eras))
             (rev (map (\<lambda>e. keyframe_value time_start time_step (length time_grid) raw_lat
                               (e_time e) (e_lat e)) eras))) time_grid)\<rparr>"
proof -
  from assms have ne: "raw_lon \<noteq> []" "raw_lat \<noteq> []" by auto
  note el = era_targets_of_eras[OF assms(1) ne(1) assms(3), of time_start e_lon eras]
  note ea = era_targets_of_eras[OF assms(1) ne(2) assms(4), of time_start e_lat eras]
  from assms(5) show ?thesis
    unfolding era_blend_def Let_def el ea bind_returns
    by (simp add: interp1d_returns)
qed



lemma sort_key_zip_sorted:
  assumes "sorted xs" "length ys = length xs"
  shows "sort_key fst (zip xs ys) = zip xs ys"
  by (rule sort_key_id_if_sorted) (use assms in simp)

lemma interp1d_linear_sorted:
  assumes "sorted xs" "length ys = length xs"
  shows "interp1d_linear xs ys x_new =
     (let hi = max 1 (min (length (filter (\<lambda>a. a < x_new) xs)) (length xs - 1))
      in (ys ! hi - ys ! (hi - 1)) / (xs ! hi - xs ! (hi - 1)) * (x_new - xs ! (hi - 1))
         + ys ! (hi - 1))"
  unfolding interp1d_linear_def sort_key_zip_sorted[OF assms] Let_def
  using assms(2) by simp

lemma interp1d_linear_above:
  assumes "sorted_wrt (<) xs" "length ys = length xs" "2 \<le> length xs"
    and "last xs < x_new"
  shows "interp1d_linear xs ys x_new =
           last ys + (last ys - ys ! (length xs - 2)) / (last xs - xs ! (length xs - 2))
                     * (x_new - last xs)"
proof -
  let ?n = "length xs"
  from assms(1) have s: "sorted xs" by (simp add: strict_sorted_iff)
  from assms(3) have ne: "xs \<noteq> []" "ys \<noteq> []" using assms(2) by auto
  have all: "\<forall>a\<in>set xs. a < x_new"
  proof
    fix a assume "a \<in> set xs"
    then obtain k where k: "k < ?n" "a = xs ! k" by (auto simp: in_set_conv_nth)
    with s ne have "a \<le> last xs"
      by (simp add: last_conv_nth sorted_nth_mono)
    with assms(4) show "a < x_new" by simp
  qed
  then have f: "filter (\<lambda>a. a < x_new) xs = xs" by simp
  from assms(3) have hi: "max 1 (min ?n (?n - 1)) = ?n - 1" by simp
  from assms(3) have idx: "?n - 1 - 1 = ?n - 2" by simp
  from assms(1,3) have "xs ! (?n - 2) < xs ! (?n - 1)"
    by (simp add: sorted_wrt_nth_less)
  then have d: "xs ! (?n - 1) - xs ! (?n - 2) \<noteq> 0" by simp
  have l: "last xs = xs ! (?n - 1)" "last ys = ys ! (?n - 1)"
    using ne assms(2) by (simp_all add: last_conv_nth)
  show ?thesis
    unfolding interp1d_linear_sorted[OF s assms(2)] f Let_def hi idx l
    using d by (simp add: field_simps)
qed

lemma interp1d_linear_below:
  assumes "sorted_wrt (<) xs" "length ys = length xs" "2 \<le> length xs"
    and "x_new < hd xs"
  shows "interp1d_linear xs ys x_new =
           hd ys + (ys ! 1 - hd ys) / (xs ! 1 - hd xs) * (x_new - hd xs)"
proof -
  let ?n = "length xs"
  from assms(1) have s: "sorted xs" by (simp add: strict_sorted_iff)
  from assms(3) have ne: "xs \<noteq> []" "ys \<noteq> []" using assms(2) by auto
  have all: "\<forall>a\<in>set xs. \<not> a < x_new"
  proof
    fix a assume "a \<in> set xs"
    then obtain k where k: "k < ?n" "a = xs ! k" by (auto simp: in_set_conv_nth)
    with s ne have "hd xs \<le> a"
      by (simp add: hd_conv_nth sorted_nth_mono)
    with assms(4) show "\<not> a < x_new" by simp
  qed
  then have f: "filter (\<lambda>a. a < x_new) xs = []" by simp
  from assms(3) have hi: "max 1 (min (length ([]::real list)) (?n - 1)) = 1" by simp
  have l: "hd xs = xs ! 0" "hd ys = ys ! 0"
    using ne by (simp_all add: hd_conv_nth)
  show ?thesis
    unfolding interp1d_linear_sorted[OF s assms(2)] f Let_def hi l
    by simp
qed

lemma interp_over_below:
  assumes "sorted_wrt (>) xs" "length ys = length xs" "2 \<le> length xs" "i < length grid"
    and "grid ! i < last xs"
  shows "interp_over (interp1d_linear (rev xs) (rev ys)) grid ! i =
     linear_through (last xs, last ys) (xs ! (length xs - 2), ys ! (length xs - 2)) (grid ! i)"
proof -
  have s: "sorted_wrt (<) (rev xs)"
    using assms(1) by (simp add: sorted_wrt_rev)
  from assms(2,3) have ne: "xs \<noteq> []" "ys \<noteq> []" by auto
  have h: "hd (rev xs) = last xs" "hd (rev ys) = last ys"
    using ne by (simp_all add: hd_rev)
  have n1: "rev xs ! 1 = xs ! (length xs - 2)" "rev ys ! 1 = ys ! (length xs - 2)"
    using assms(2,3) by (simp_all add: rev_nth) (metis Suc_1 diff_Suc_eq_diff_pred numeral_2_eq_2)+
  from interp1d_linear_below[OF s, of "rev ys" "grid ! i"] assms(2,3,5) h
  have "interp1d_linear (rev xs) (rev ys) (grid ! i) =
          last ys + (rev ys ! 1 - last ys) / (rev xs ! 1 - last xs) * (grid ! i - last xs)"
    by simp
  then show ?thesis
    unfolding interp_over_nth[OF assms(4)] linear_through_def n1 by simp
qed

lemma interp_over_above:
  assumes "sorted_wrt (>) xs" "length ys = length xs" "2 \<le> length xs" "i < length grid"
    and "hd xs < grid ! i"
  shows "interp_over (interp1d_linear (rev xs) (rev ys)) grid ! i =
     linear_through (hd xs, hd ys) (xs ! 1, ys ! 1) (grid ! i)"
proof -
  have s: "sorted_wrt (<) (rev xs)"
    using assms(1) by (simp add: sorted_wrt_rev)
  from assms(2,3) have ne: "xs \<noteq> []" "ys \<noteq> []" by auto
  have h: "last (rev xs) = hd xs" "last (rev ys) = hd ys"
    using ne by (simp_all add: last_rev)
  have "length xs - Suc (length xs - 2) = 1" using assms(3) by simp
  then have n1: "rev xs ! (length xs - 2) = xs ! 1" "rev ys ! (length xs - 2) = ys ! 1"
    using assms(2,3) by (simp_all add: rev_nth)
  from interp1d_linear_above[OF s, of "rev ys" "grid ! i"] assms(2,3,5) h n1
  have e: "interp1d_linear (rev xs) (rev ys) (grid ! i) =
          hd ys + (hd ys - ys ! 1) / (hd xs - xs ! 1) * (grid ! i - hd xs)"
    by simp
  have q: "(hd ys - ys ! 1) / (hd xs - xs ! 1) = (ys ! 1 - hd ys) / (xs ! 1 - hd xs)"
    by (metis minus_diff_eq minus_divide_divide)
  show ?thesis
    unfolding interp_over_nth[OF assms(4)] linear_through_def e q by simp
qed

text \<open>
  Claim C7 as stated fails. With the era table of the script and a time grid that reaches
  \<open>-10\<close> (\<open>TIME_START = 1000\<close>, \<open>TIME_END = -10\<close>, \<open>TIME_STEP = 1010\<close>), the timestep at
  \<open>-10\<close> lies below the last keyframe (time 0, weight 0.4, target 15, 25), but its
  interpolated weight is 0.46 and its target is (18, 26).
\<close>

theorem era_extrapolation_counterexample:
  "era_blend ERA_OVERRIDES 1000 1010 [1000, -10] [0, 0] [0, 0]
     = returns \<lparr>override_weights = [0, 23/50], override_lons = [0, 18], override_lats = [0, 26],
                 blended_lons = [0, 207/25], blended_lats = [0, 299/25]\<rparr>
   \<and> e_time (last ERA_OVERRIDES) = 0
   \<and> (-10 :: real) < real_of_int (e_time (last ERA_OVERRIDES))
   \<and> e_weight (last ERA_OVERRIDES) = 2/5
   \<and> e_lon (last ERA_OVERRIDES) = Some 15
   \<and> e_lat (last ERA_OVERRIDES) = Some 25"
proof -
  have h1: "(1010::int) \<noteq> 0" by simp
  have h2: "[1000, -10 :: real] \<noteq> []" by simp
  have h3: "length [0, 0 :: real] = length [1000, -10 :: real]" by simp
  have ne: "ERA_OVERRIDES \<noteq> []" by (simp add: ERA_OVERRIDES_def)
  have kl: "map (\<lambda>e. keyframe_value 1000 1010 (length [1000, -10 :: real]) [0, 0]
                       (e_time e) (e_lon e)) ERA_OVERRIDES
      = [0, 0, 0, 100, 120, 5, 0, 0, 0, 20, 20, 10, 0, 0, 15]"
    by (simp add: ERA_OVERRIDES_def mk_era_def keyframe_value_def py_int_def)
  have ka: "map (\<lambda>e. keyframe_value 1000 1010 (length [1000, -10 :: real]) [0, 0]
                       (e_time e) (e_lat e)) ERA_OVERRIDES
      = [0, 0, 0, -45, -50, -15, -10, 10, 10, 15, 10, 10, 10, 20, 25]"
    by (simp add: ERA_OVERRIDES_def mk_era_def keyframe_value_def py_int_def)
  have tm: "rev (map (\<lambda>e. real_of_int (e_time e)) ERA_OVERRIDES) =
      [0, 50, 66, 100, 150, 200, 250, 300, 350, 380, 480, 550, 750, 900, 1000]"
    by (simp add: ERA_OVERRIDES_def mk_era_def)
  have s: "sorted [0, 50, 66, 100, 150, 200, 250, 300, 350, 380, 480, 550, 750, 900, 1000 :: real]"
    by simp
  have w: "rev (map e_weight ERA_OVERRIDES) =
      [2/5, 1/10, 1/5, 1/5, 3/10, 1/2, 7/10, 3/5, 1/2, 2/5, 1/2, 1/2, 0, 0, 0]"
    by (simp add: ERA_OVERRIDES_def mk_era_def)
  have ow: "interp_over (interp1d_linear (rev (map (\<lambda>e. real_of_int (e_time e)) ERA_OVERRIDES))
      (rev (map e_weight ERA_OVERRIDES))) [1000, -10] = [0, 23/50]"
    unfolding interp_over_def tm w by (simp add: interp1d_linear_sorted[OF s])
  have ol: "interp_over (interp1d_linear (rev (map (\<lambda>e. real_of_int (e_time e)) ERA_OVERRIDES))
      (rev [0, 0, 0, 100, 120, 5, 0, 0, 0, 20, 20, 10, 0, 0, 15])) [1000, -10] = [0, 18]"
    unfolding interp_over_def tm by (simp add: interp1d_linear_sorted[OF s])
  have oa: "interp_over (interp1d_linear (rev (map (\<lambda>e. real_of_int (e_time e)) ERA_OVERRIDES))
      (rev [0, 0, 0, -45, -50, -15, -10, 10, 10, 15, 10, 10, 10, 20, 25])) [1000, -10] = [0, 26]"
    unfolding interp_over_def tm by (simp add: interp1d_linear_sorted[OF s])
  have "era_blend ERA_OVERRIDES 1000 1010 [1000, -10] [0, 0] [0, 0]
     = returns \<lparr>override_weights = [0, 23/50], override_lons = [0, 18], override_lats = [0, 26],
                 blended_lons = [0, 207/25], blended_lats = [0, 299/25]\<rparr>"
    unfolding era_blend_result[OF h1 h2 h3 h3 ne] kl ka ow ol oa by (simp add: blend_def)
  moreover have "e_time (last ERA_OVERRIDES) = 0" "e_weight (last ERA_OVERRIDES) = 2/5"
    "e_lon (last ERA_OVERRIDES) = Some 15" "e_lat (last ERA_OVERRIDES) = Some 25"
    by (simp_all add: ERA_OVERRIDES_def mk_era_def)
  ultimately show ?thesis by simp
qed

text \<open>
  Claim C7, amended. For at least two keyframes authored in strictly decreasing time
  order, Step 3 returns; the lists \<open>era_lons\<close> and \<open>era_lats\<close> that the script builds hold
  for every keyframe its \<open>keyframe_value\<close> (the authored target, or the raw centroid at the
  timestep of the keyframe when the target is \<open>None\<close>); and at a timestep whose time lies
  outside the keyframe times the interpolated weight, target longitude and target latitude
  each lie on the line through the two nearest keyframes (linear extrapolation): the last
  two keyframes below the range, the first two above it.
\<close>

theorem era_extrapolation_linear:
  assumes "time_step \<noteq> 0" and "time_grid \<noteq> []"
    and "length raw_lon = length time_grid" and "length raw_lat = length time_grid"
    and "sorted_wrt (>) (map e_time eras)" and "2 \<le> length eras"
    and "i < length time_grid"
  shows "\<exists>res.
     era_blend eras time_start time_step time_grid raw_lon raw_lat = returns res \<and>
     era_targets time_start time_step (length time_grid) raw_lon
         (map (\<lambda>e. (e_time e, e_lon e)) eras)
       = returns (map (\<lambda>e. keyframe_value time_start time_step (length time_grid) raw_lon
                               (e_time e) (e_lon e)) eras) \<and>
     era_targets time_start time_step (length time_grid) raw_lat
         (map (\<lambda>e. (e_time e, e_lat e)) eras)
       = returns (map (\<lambda>e. keyframe_value time_start time_step (length time_grid) raw_lat
                               (e_time e) (e_lat e)) eras) \<and>
     (time_grid ! i < real_of_int (e_time (last eras)) \<longrightarrow>
        (let a = eras ! (length eras - 1);
             b = eras ! (length eras - 2);
             x1 = real_of_int (e_time a);
             x2 = real_of_int (e_time b)
         in override_weights res ! i =
              linear_through (x1, e_weight a) (x2, e_weight b) (time_grid ! i) \<and>
            override_lons res ! i =
              linear_through
                (x1, keyframe_value time_start time_step (length time_grid) raw_lon
                       (e_time a) (e_lon a))
                (x2, keyframe_value time_start time_step (length time_grid) raw_lon
                       (e_time b) (e_lon b))
                (time_grid ! i) \<and>
            override_lats res ! i =
              linear_through
                (x1, keyframe_value time_start time_step (length time_grid) raw_lat
                       (e_time a) (e_lat a))
                (x2, keyframe_value time_start time_step (length time_grid) raw_lat
                       (e_time b) (e_lat b))
                (time_grid ! i))) \<and>
     (real_of_int (e_time (hd eras)) < time_grid ! i \<longrightarrow>
        (let a = eras ! 0;
             b = eras ! 1;
             x1 = real_of_int (e_time a);
             x2 = real_of_int (e_time b)
         in override_weights res ! i =
              linear_through (x1, e_weight a) (x2, e_weight b) (time_grid ! i) \<and>
            override_lons res ! i =
              linear_through
                (x1, keyframe_value time_start time_step (length time_grid) raw_lon
                       (e_time a) (e_lon a))
                (x2, keyframe_value time_start time_step (length time_grid) raw_lon
                       (e_time b) (e_lon b))
                (time_grid ! i) \<and>
            override_lats res ! i =
              linear_through
                (x1, keyframe_value time_start time_step (length time_grid) raw_lat
                       (e_time a) (e_lat a))
                (x2, keyframe_value time_start time_step (length time_grid) raw_lat
                       (e_time b) (e_lat b))
                (time_grid ! i)))"
proof -
  let ?n = "length eras"
  let ?g = "length time_grid"
  let ?kl = "\<lambda>e. keyframe_value time_start time_step ?g raw_lon (e_time e) (e_lon e)"
  let ?ka = "\<lambda>e. keyframe_value time_start time_step ?g raw_lat (e_time e) (e_lat e)"
  from assms have ne: "raw_lon \<noteq> []" "raw_lat \<noteq> []" by auto
  from assms(6) have ene: "eras \<noteq> []" by auto
  note el = era_targets_of_eras[OF assms(1) ne(1) assms(3), of time_start e_lon eras]
  note ea = era_targets_of_eras[OF assms(1) ne(2) assms(4), of time_start e_lat eras]
  define xs where "xs = map (\<lambda>e. real_of_int (e_time e)) eras"
  define ws where "ws = map e_weight eras"
  define ls where "ls = map ?kl eras"
  define as where "as = map ?ka eras"
  define res where "res = \<lparr>override_weights = interp_over (interp1d_linear (rev xs) (rev ws)) time_grid,
      override_lons = interp_over (interp1d_linear (rev xs) (rev ls)) time_grid,
      override_lats = interp_over (interp1d_linear (rev xs) (rev as)) time_grid,
      blended_lons = blend raw_lon (interp_over (interp1d_linear (rev xs) (rev ws)) time_grid)
                       (interp_over (interp1d_linear (rev xs) (rev ls)) time_grid),
      blended_lats = blend raw_lat (interp_over (interp1d_linear (rev xs) (rev ws)) time_grid)
                       (interp_over (interp1d_linear (rev xs) (rev as)) time_grid)\<rparr>"
  have r: "era_blend eras time_start time_step time_grid raw_lon raw_lat = returns res"
    unfolding era_blend_result[OF assms(1-4) ene] res_def xs_def ws_def ls_def as_def ..
  have sel: "override_weights res = interp_over (interp1d_linear (rev xs) (rev ws)) time_grid"
    "override_lons res = interp_over (interp1d_linear (rev xs) (rev ls)) time_grid"
    "override_lats res = interp_over (interp1d_linear (rev xs) (rev as)) time_grid"
    by (simp_all add: res_def)
  have sx: "sorted_wrt (>) xs"
    using assms(5) unfolding xs_def by (simp add: sorted_wrt_map)
  have lx: "length xs = ?n" "2 \<le> length xs" "length ws = length xs"
    "length ls = length xs" "length as = length xs"
    using assms(6) by (simp_all add: xs_def ws_def ls_def as_def)
  have n2: "?n - 2 < ?n" "?n - 1 < ?n" "0 < ?n" "1 < ?n" using assms(6) by linarith+
  have xlast: "last xs = real_of_int (e_time (last eras))" "hd xs = real_of_int (e_time (hd eras))"
    using ene by (simp_all add: xs_def last_map hd_map)
  have nth: "xs ! k = real_of_int (e_time (eras ! k))" "ws ! k = e_weight (eras ! k)"
    "ls ! k = ?kl (eras ! k)" "as ! k = ?ka (eras ! k)" if "k < ?n" for k
    using that by (simp_all add: xs_def ws_def ls_def as_def)
  have nz: "xs \<noteq> []" "ws \<noteq> []" "ls \<noteq> []" "as \<noteq> []"
    using ene by (auto simp: xs_def ws_def ls_def as_def)
  have lasts: "last xs = xs ! (?n - 1)" "last ws = ws ! (?n - 1)"
    "last ls = ls ! (?n - 1)" "last as = as ! (?n - 1)"
    "hd xs = xs ! 0" "hd ws = ws ! 0" "hd ls = ls ! 0" "hd as = as ! 0"
    using nz lx by (simp_all add: last_conv_nth hd_conv_nth)
  have low: "time_grid ! i < real_of_int (e_time (last eras)) \<longrightarrow>
        (let a = eras ! (length eras - 1);
             b = eras ! (length eras - 2);
             x1 = real_of_int (e_time a);
             x2 = real_of_int (e_time b)
         in override_weights res ! i =
              linear_through (x1, e_weight a) (x2, e_weight b) (time_grid ! i) \<and>
            override_lons res ! i =
              linear_through (x1, ?kl a) (x2, ?kl b) (time_grid ! i) \<and>
            override_lats res ! i =
              linear_through (x1, ?ka a) (x2, ?ka b) (time_grid ! i))"
  proof
    assume "time_grid ! i < real_of_int (e_time (last eras))"
    then have b: "time_grid ! i < last xs" by (simp add: xlast)
    note io = interp_over_below[OF sx _ lx(2) assms(7) b]
    from io[OF lx(3)] io[OF lx(4)] io[OF lx(5)]
    show "let a = eras ! (length eras - 1);
             b = eras ! (length eras - 2);
             x1 = real_of_int (e_time a);
             x2 = real_of_int (e_time b)
         in override_weights res ! i =
              linear_through (x1, e_weight a) (x2, e_weight b) (time_grid ! i) \<and>
            override_lons res ! i =
              linear_through (x1, ?kl a) (x2, ?kl b) (time_grid ! i) \<and>
            override_lats res ! i =
              linear_through (x1, ?ka a) (x2, ?ka b) (time_grid ! i)"
      unfolding Let_def sel lasts lx(1) nth[OF n2(1)] nth[OF n2(2)] by simp
  qed
  have high: "real_of_int (e_time (hd eras)) < time_grid ! i \<longrightarrow>
        (let a = eras ! 0;
             b = eras ! 1;
             x1 = real_of_int (e_time a);
             x2 = real_of_int (e_time b)
         in override_weights res ! i =
              linear_through (x1, e_weight a) (x2, e_weight b) (time_grid ! i) \<and>
            override_lons res ! i =
              linear_through (x1, ?kl a) (x2, ?kl b) (time_grid ! i) \<and>
            override_lats res ! i =
              linear_through (x1, ?ka a) (x2, ?ka b) (time_grid ! i))"
  proof
    assume "real_of_int (e_time (hd eras)) < time_grid ! i"
    then have b: "hd xs < time_grid ! i" by (simp add: xlast)
    note io = interp_over_above[OF sx _ lx(2) assms(7) b]
    from io[OF lx(3)] io[OF lx(4)] io[OF lx(5)]
    show "let a = eras ! 0;
             b = eras ! 1;
             x1 = real_of_int (e_time a);
             x2 = real_of_int (e_time b)
         in override_weights res ! i =
              linear_through (x1, e_weight a) (x2, e_weight b) (time_grid ! i) \<and>
            override_lons res ! i =
              linear_through (x1, ?kl a) (x2, ?kl b) (time_grid ! i) \<and>
            override_lats res ! i =
              linear_through (x1, ?ka a) (x2, ?ka b) (time_grid ! i)"
      unfolding Let_def sel lasts nth[OF n2(3)] nth[OF n2(4)] by simp
  qed
  from r el ea low high show ?thesis by blast
qed

text \<open>
  The theorem at three eras, the last one with inherited targets, and a grid whose last
  timestep lies below the keyframes: the keyframe at time 0 takes the raw centroid (3, 7)
  of its timestep, and at time \<open>-50\<close> the weight, longitude and latitude continue the
  segment between the keyframes at 50 and 0.
\<close>

theorem era_extrapolation_linear_witness:
  "(50::int) \<noteq> 0 \<and> [100, 50, 0, -50 :: real] \<noteq> [] \<and>
   length [1, 2, 3, 4 :: real] = length [100, 50, 0, -50 :: real] \<and>
   length [5, 6, 7, 8 :: real] = length [100, 50, 0, -50 :: real] \<and>
   sorted_wrt (>) (map e_time [mk_era 100 (Some 10) (Some 20) ''a'' 0,
       mk_era 50 (Some 0) (Some 10) ''b'' (1/2), mk_era 0 None None ''c'' 1]) \<and>
   2 \<le> length [mk_era 100 (Some 10) (Some 20) ''a'' 0,
       mk_era 50 (Some 0) (Some 10) ''b'' (1/2), mk_era 0 None None ''c'' 1] \<and>
   3 < length [100, 50, 0, -50 :: real] \<and>
   [100, 50, 0, -50 :: real] ! 3 < real_of_int (e_time (last [mk_era 100 (Some 10) (Some 20) ''a'' 0,
       mk_era 50 (Some 0) (Some 10) ''b'' (1/2), mk_era 0 None None ''c'' 1])) \<and>
   (\<exists>res. era_blend [mk_era 100 (Some 10) (Some 20) ''a'' 0,
       mk_era 50 (Some 0) (Some 10) ''b'' (1/2), mk_era 0 None None ''c'' 1] 100 50
       [100, 50, 0, -50] [1, 2, 3, 4] [5, 6, 7, 8] = returns res \<and>
     override_weights res ! 3 = linear_through (0, 1) (50, 1/2) (-50) \<and>
     override_weights res ! 3 = 3/2 \<and>
     override_lons res ! 3 = linear_through (0, 3) (50, 0) (-50) \<and>
     override_lons res ! 3 = 6 \<and>
     override_lats res ! 3 = linear_through (0, 7) (50, 10) (-50) \<and>
     override_lats res ! 3 = 4)"
proof -
  let ?eras = "[mk_era 100 (Some 10) (Some 20) ''a'' 0,
       mk_era 50 (Some 0) (Some 10) ''b'' (1/2), mk_era 0 None None ''c'' 1]"
  let ?grid = "[100, 50, 0, -50 :: real]"
  have h1: "(50::int) \<noteq> 0" by simp
  have h2: "?grid \<noteq> []" by simp
  have h3: "length [1, 2, 3, 4 :: real] = length ?grid" by simp
  have h4: "length [5, 6, 7, 8 :: real] = length ?grid" by simp
  have h5: "sorted_wrt (>) (map e_time ?eras)" by (simp add: mk_era_def)
  have h6: "2 \<le> length ?eras" by simp
  have h7: "3 < length ?grid" by simp
  have h8: "?grid ! 3 < real_of_int (e_time (last ?eras))" by (simp add: mk_era_def)
  from era_extrapolation_linear[OF h1 h2 h3 h4 h5 h6 h7, of 100] h8
  obtain res where r: "era_blend ?eras 100 50 ?grid [1, 2, 3, 4] [5, 6, 7, 8] = returns res"
    and w: "(let a = ?eras ! (length ?eras - 1);
             b = ?eras ! (length ?eras - 2);
             x1 = real_of_int (e_time a);
             x2 = real_of_int (e_time b)
         in override_weights res ! 3 =
              linear_through (x1, e_weight a) (x2, e_weight b) (?grid ! 3) \<and>
            override_lons res ! 3 =
              linear_through
                (x1, keyframe_value 100 50 (length ?grid) [1, 2, 3, 4] (e_time a) (e_lon a))
                (x2, keyframe_value 100 50 (length ?grid) [1, 2, 3, 4] (e_time b) (e_lon b))
                (?grid ! 3) \<and>
            override_lats res ! 3 =
              linear_through
                (x1, keyframe_value 100 50 (length ?grid) [5, 6, 7, 8] (e_time a) (e_lat a))
                (x2, keyframe_value 100 50 (length ?grid) [5, 6, 7, 8] (e_time b) (e_lat b))
                (?grid ! 3))"
    by blast
  from w have w': "override_weights res ! 3 = linear_through (0, 1) (50, 1/2) (-50)"
    "override_lons res ! 3 = linear_through (0, 3) (50, 0) (-50)"
    "override_lats res ! 3 = linear_through (0, 7) (50, 10) (-50)"
    by (simp_all add: mk_era_def keyframe_value_def py_int_def)
  then have v: "override_weights res ! 3 = 3/2" "override_lons res ! 3 = 6"
    "override_lats res ! 3 = 4"
    by (simp_all add: linear_through_def)
  from r w' v have "\<exists>res. era_blend ?eras 100 50 ?grid [1, 2, 3, 4] [5, 6, 7, 8] = returns res \<and>
     override_weights res ! 3 = linear_through (0, 1) (50, 1/2) (-50) \<and>
     override_weights res ! 3 = 3/2 \<and>
     override_lons res ! 3 = linear_through (0, 3) (50, 0) (-50) \<and>
     override_lons res ! 3 = 6 \<and>
     override_lats res ! 3 = linear_through (0, 7) (50, 10) (-50) \<and>
     override_lats res ! 3 = 4"
    by blast
  with h1 h2 h3 h4 h5 h6 h7 h8 show ?thesis by blast
qed

section \<open>Frame expansion\<close>

lemma np_get_in [simp]: "i < length xs \<Longrightarrow> np_get xs i = returns (xs ! i)"
  by (simp add: np_get_def)

lemma map_anim_upt: "map (\<lambda>sub. anim + sub) [0..<k] = [anim..<anim + k]"
  by (induction k) simp_all

lemma get_era_label_returns: "eras \<noteq> [] \<Longrightarrow> \<exists>l. get_era_label eras t = returns l"
  by (cases eras) (simp_all add: get_era_label_def)

lemma regular_frames_result:
  assumes wf: "well_formed_input inp" and i: "i < length (time_values inp)"
  shows "\<exists>reg. regular_frames inp i t label k anim = returns reg \<and>
           length reg = nat k \<and>
           map geo_frame_idx reg = replicate (nat k) i \<and>
           map anim_frame reg = [anim..<anim + nat k]"
proof (cases "int i < int (length (time_values inp)) - 1")
  case True
  then have "i + 1 < length (time_values inp)" by simp
  with wf i show ?thesis
    unfolding regular_frames_def well_formed_input_def
    by (simp add: True comp_def Let_def map_anim_upt map_replicate_const)
next
  case False
  with wf i show ?thesis
    unfolding regular_frames_def well_formed_input_def
    by (simp add: comp_def map_anim_upt map_replicate_const)
qed

lemma hold_frames_result:
  assumes wf: "well_formed_input inp" and i: "i < length (time_values inp)"
  shows "\<exists>hold. hold_frames_at inp i t label anim = returns hold \<and>
           length hold = hold_count inp i \<and>
           map geo_frame_idx hold = replicate (hold_count inp i) i \<and>
           map anim_frame hold = [anim..<anim + hold_count inp i]"
proof (cases "hold_frames inp i")
  case None
  then show ?thesis by (simp add: hold_frames_at_def hold_count_def)
next
  case (Some a)
  obtain extra hl where a: "a = (extra, hl)" by (cases a)
  show ?thesis
  proof (cases "nat extra = 0")
    case True
    with Some a show ?thesis by (simp add: hold_frames_at_def hold_count_def)
  next
    case False
    with Some a wf i show ?thesis
      unfolding hold_frames_at_def well_formed_input_def hold_count_def
      by (simp add: comp_def map_anim_upt map_replicate_const)
  qed
qed

lemma frame_duration_nth:
  "i < length ds \<Longrightarrow> frame_duration lo hi ds ! i = lo + (hi - lo) * (1 - ds ! i)"
  by (simp add: frame_duration_def)

lemma n_frames_regular_count:
  assumes "well_formed_input inp" "i < length (time_values inp)"
  shows "nat (n_frames_of (frame_duration (min_speed inp) (max_speed inp) (smooth_dispersal inp) ! i))
           = regular_count inp i"
  using assms unfolding well_formed_input_def regular_count_def n_frames_of_def
  by (simp add: frame_duration_nth)

lemma regular_count_pos: "1 \<le> regular_count inp i"
  by (simp add: regular_count_def)

lemma timestep_frames_parts:
  assumes wf: "well_formed_input inp" and i: "i < length (time_values inp)"
  shows "\<exists>label reg hold.
           get_era_label (era_list inp) (time_values inp ! i) = returns label \<and>
           regular_frames inp i (time_values inp ! i) label
             (n_frames_of (frame_duration (min_speed inp) (max_speed inp) (smooth_dispersal inp) ! i))
             anim = returns reg \<and>
           hold_frames_at inp i (time_values inp ! i) label (anim + length reg) = returns hold \<and>
           timestep_frames inp i anim = returns (reg @ hold) \<and>
           length reg = regular_count inp i \<and> length hold = hold_count inp i \<and>
           map geo_frame_idx (reg @ hold) = replicate (regular_count inp i + hold_count inp i) i \<and>
           map anim_frame (reg @ hold) = [anim..<anim + (regular_count inp i + hold_count inp i)]"
proof -
  let ?fd = "frame_duration (min_speed inp) (max_speed inp) (smooth_dispersal inp)"
  from wf obtain label where l: "get_era_label (era_list inp) (time_values inp ! i) = returns label"
    using get_era_label_returns unfolding well_formed_input_def by blast
  from wf i have fdl: "i < length ?fd" by (simp add: frame_duration_def well_formed_input_def)
  from regular_frames_result[OF wf i, of "time_values inp ! i" label "n_frames_of (?fd ! i)" anim]
  obtain reg where reg: "regular_frames inp i (time_values inp ! i) label (n_frames_of (?fd ! i)) anim
      = returns reg" "length reg = regular_count inp i"
    "map geo_frame_idx reg = replicate (regular_count inp i) i"
    "map anim_frame reg = [anim..<anim + regular_count inp i]"
    unfolding n_frames_regular_count[OF wf i] by blast
  from hold_frames_result[OF wf i, of "time_values inp ! i" label "anim + length reg"]
  obtain hold where hold: "hold_frames_at inp i (time_values inp ! i) label (anim + length reg)
      = returns hold" "length hold = hold_count inp i"
    "map geo_frame_idx hold = replicate (hold_count inp i) i"
    "map anim_frame hold = [anim + length reg..<anim + length reg + hold_count inp i]"
    by blast
  have ts: "timestep_frames inp i anim = returns (reg @ hold)"
    unfolding timestep_frames_def using i fdl l reg(1) hold(1) by simp
  have an: "map anim_frame (reg @ hold) = [anim..<anim + (regular_count inp i + hold_count inp i)]"
  proof -
    have "[anim..<anim + regular_count inp i + hold_count inp i]
            = [anim..<anim + regular_count inp i]
              @ [anim + regular_count inp i..<anim + regular_count inp i + hold_count inp i]"
      by (rule upt_add_eq_append) simp
    with reg(2,4) hold(4) show ?thesis by (simp add: add.assoc)
  qed
  have geo: "map geo_frame_idx (reg @ hold) = replicate (regular_count inp i + hold_count inp i) i"
    using reg(3) hold(3) by (simp add: replicate_add)
  from l reg(1) hold(1) ts reg(2) hold(2) geo an show ?thesis by blast
qed

lemma timestep_frames_result:
  assumes wf: "well_formed_input inp" and i: "i < length (time_values inp)"
  shows "\<exists>fs. timestep_frames inp i anim = returns fs \<and>
           length fs = regular_count inp i + hold_count inp i \<and>
           map geo_frame_idx fs = replicate (regular_count inp i + hold_count inp i) i \<and>
           map anim_frame fs = [anim..<anim + (regular_count inp i + hold_count inp i)]"
proof -
  from timestep_frames_parts[OF wf i, of anim] obtain reg hold where
    "timestep_frames inp i anim = returns (reg @ hold)"
    "length reg = regular_count inp i" "length hold = hold_count inp i"
    "map geo_frame_idx (reg @ hold) = replicate (regular_count inp i + hold_count inp i) i"
    "map anim_frame (reg @ hold) = [anim..<anim + (regular_count inp i + hold_count inp i)]"
    by blast
  then show ?thesis by (intro exI[of _ "reg @ hold"]) simp
qed

lemma expand_loop_result:
  assumes wf: "well_formed_input inp" and bound: "\<forall>i\<in>set idxs. i < length (time_values inp)"
  shows "\<exists>fs. expand_loop inp idxs (out, anim) = returns (out @ fs, anim + length fs) \<and>
           map geo_frame_idx fs
             = concat (map (\<lambda>i. replicate (regular_count inp i + hold_count inp i) i) idxs) \<and>
           map anim_frame fs = [anim..<anim + length fs]"
  using bound
proof (induction idxs arbitrary: out anim)
  case Nil
  then show ?case by simp
next
  case (Cons i idxs)
  from Cons.prems have i: "i < length (time_values inp)"
    and rest: "\<forall>j\<in>set idxs. j < length (time_values inp)" by simp_all
  let ?c = "regular_count inp i + hold_count inp i"
  from timestep_frames_result[OF wf i, of anim] obtain fs where
    fs: "timestep_frames inp i anim = returns fs" "length fs = ?c"
    "map geo_frame_idx fs = replicate ?c i" "map anim_frame fs = [anim..<anim + ?c]"
    by blast
  from Cons.IH[OF rest, of "out @ fs" "anim + length fs"] obtain gs where
    gs: "expand_loop inp idxs (out @ fs, anim + length fs)
           = returns ((out @ fs) @ gs, anim + length fs + length gs)"
    "map geo_frame_idx gs
       = concat (map (\<lambda>i. replicate (regular_count inp i + hold_count inp i) i) idxs)"
    "map anim_frame gs = [anim + length fs..<anim + length fs + length gs]"
    by blast
  have run: "expand_loop inp (i # idxs) (out, anim)
               = returns (out @ (fs @ gs), anim + length (fs @ gs))"
    using fs(1) gs(1) by (simp add: add.assoc)
  have geo: "map geo_frame_idx (fs @ gs)
       = concat (map (\<lambda>i. replicate (regular_count inp i + hold_count inp i) i) (i # idxs))"
    using fs(3) gs(2) by simp
  have "[anim..<anim + length fs + length gs]
          = [anim..<anim + length fs] @ [anim + length fs..<anim + length fs + length gs]"
    by (rule upt_add_eq_append) simp
  with fs(2,4) gs(3) have an: "map anim_frame (fs @ gs) = [anim..<anim + length (fs @ gs)]"
    by (simp add: add.assoc)
  from run geo an show ?case by blast
qed

lemma sorted_concat_replicate:
  "sorted (concat (map (\<lambda>i. replicate (c i) i) [0..<n]))"
proof (induction n)
  case 0
  then show ?case by simp
next
  case (Suc n)
  have "\<forall>x\<in>set (concat (map (\<lambda>i. replicate (c i) i) [0..<n])). x \<le> n"
    by auto
  with Suc show ?case by (auto simp: sorted_append)
qed

lemma set_concat_replicate:
  assumes "\<forall>i<n. 1 \<le> c i"
  shows "set (concat (map (\<lambda>i. replicate (c i) i) [0..<n])) = {0..<n}"
proof -
  have "\<And>i. i < n \<Longrightarrow> set (replicate (c i) i) = {i}"
    using assms by (auto simp: set_replicate_conv_if Suc_le_eq)
  then show ?thesis by auto
qed

lemma count_concat_replicate:
  "i < n \<Longrightarrow> length (filter (\<lambda>g. g = i) (concat (map (\<lambda>j. replicate (c j) j) [0..<n]))) = c i"
proof (induction n)
  case 0
  then show ?case by simp
next
  case (Suc n)
  have none: "n \<le> j \<Longrightarrow> filter (\<lambda>g. g = j) (concat (map (\<lambda>j. replicate (c j) j) [0..<n])) = []" for j
    by (auto simp: filter_empty_conv)
  show ?case
  proof (cases "i = n")
    case True
    with none[of n] show ?thesis by simp
  next
    case False
    with Suc have "i < n" by simp
    with Suc.IH False show ?thesis by simp
  qed
qed

lemma expand_frames_result:
  assumes wf: "well_formed_input inp"
  shows "\<exists>frames. expand_frames inp = returns frames \<and>
           map geo_frame_idx frames
             = concat (map (\<lambda>i. replicate (regular_count inp i + hold_count inp i) i)
                           [0..<length (time_values inp)]) \<and>
           map anim_frame frames = [0..<length frames]"
proof -
  have "\<forall>i\<in>set [0..<length (time_values inp)]. i < length (time_values inp)" by simp
  from expand_loop_result[OF wf this, of "[]" 0] obtain fs where
    "expand_loop inp [0..<length (time_values inp)] ([], 0) = returns ([] @ fs, 0 + length fs)"
    "map geo_frame_idx fs
       = concat (map (\<lambda>i. replicate (regular_count inp i + hold_count inp i) i)
                     [0..<length (time_values inp)])"
    "map anim_frame fs = [0..<0 + length fs]"
    by blast
  then show ?thesis by (simp add: expand_frames_def)
qed

lemma py_round_int: "py_round (of_int k) = k"
  by (simp add: py_round_def)

lemma py_round_1_3: "py_round 1 = 1" "py_round 3 = 3"
  using py_round_int[of 1] py_round_int[of 3] by simp_all

lemma regular_count_int:
  "int (regular_count inp i) =
     max 1 (py_round (min_speed inp + (max_speed inp - min_speed inp) * (1 - smooth_dispersal inp ! i)))"
  by (simp add: regular_count_def)

text \<open>
  Claim C5. For every timestep \<open>i\<close> the frame loop appends the regular frames and then the
  hold frames; the number of regular frames is
  \<open>max(1, round(min_speed + (max_speed - min_speed) * (1 - dispersal)))\<close> for the smoothed
  dispersal of that timestep, and the emitted sequence holds exactly these regular frames
  plus the configured hold frames for timestep \<open>i\<close>. With \<open>min_speed = 1\<close> and
  \<open>max_speed = 3\<close>, dispersal 1 gives one regular frame and dispersal 0 gives
  \<open>round(max_speed) = 3\<close>.
\<close>

theorem regular_frame_count:
  assumes "well_formed_input inp" and "i < length (time_values inp)"
  shows "\<exists>label reg hold frames.
     get_era_label (era_list inp) (time_values inp ! i) = returns label \<and>
     regular_frames inp i (time_values inp ! i) label
       (n_frames_of (frame_duration (min_speed inp) (max_speed inp) (smooth_dispersal inp) ! i))
       anim = returns reg \<and>
     hold_frames_at inp i (time_values inp ! i) label (anim + length reg) = returns hold \<and>
     timestep_frames inp i anim = returns (reg @ hold) \<and>
     int (length reg) =
       max 1 (py_round (min_speed inp + (max_speed inp - min_speed inp)
                                          * (1 - smooth_dispersal inp ! i))) \<and>
     length hold = hold_count inp i \<and>
     expand_frames inp = returns frames \<and>
     length (filter (\<lambda>f. geo_frame_idx f = i) frames) = length reg + length hold \<and>
     (min_speed inp = 1 \<and> max_speed inp = 3 \<and> smooth_dispersal inp ! i = 1 \<longrightarrow> length reg = 1) \<and>
     (min_speed inp = 1 \<and> max_speed inp = 3 \<and> smooth_dispersal inp ! i = 0 \<longrightarrow>
        length reg = 3 \<and> py_round (max_speed inp) = 3)"
proof -
  from timestep_frames_parts[OF assms, of anim] obtain label reg hold where
    p: "get_era_label (era_list inp) (time_values inp ! i) = returns label"
    "regular_frames inp i (time_values inp ! i) label
       (n_frames_of (frame_duration (min_speed inp) (max_speed inp) (smooth_dispersal inp) ! i))
       anim = returns reg"
    "hold_frames_at inp i (time_values inp ! i) label (anim + length reg) = returns hold"
    "timestep_frames inp i anim = returns (reg @ hold)"
    and lr: "length reg = regular_count inp i" and lh: "length hold = hold_count inp i"
    by blast
  from expand_frames_result[OF assms(1)] obtain frames where
    f: "expand_frames inp = returns frames" and
    geo: "map geo_frame_idx frames
             = concat (map (\<lambda>i. replicate (regular_count inp i + hold_count inp i) i)
                           [0..<length (time_values inp)])"
    by blast
  have "length (filter (\<lambda>f. geo_frame_idx f = i) frames)
          = length (filter (\<lambda>g. g = i) (map geo_frame_idx frames))"
    by (simp add: filter_map comp_def)
  also have "\<dots> = regular_count inp i + hold_count inp i"
    unfolding geo by (rule count_concat_replicate[OF assms(2)])
  finally have cnt: "length (filter (\<lambda>f. geo_frame_idx f = i) frames) = length reg + length hold"
    using lr lh by simp
  have n: "int (length reg) =
       max 1 (py_round (min_speed inp + (max_speed inp - min_speed inp)
                                          * (1 - smooth_dispersal inp ! i)))"
    unfolding lr by (rule regular_count_int)
  have one: "min_speed inp = 1 \<and> max_speed inp = 3 \<and> smooth_dispersal inp ! i = 1 \<longrightarrow> length reg = 1"
    unfolding lr regular_count_def by (simp add: py_round_1_3)
  have three: "min_speed inp = 1 \<and> max_speed inp = 3 \<and> smooth_dispersal inp ! i = 0 \<longrightarrow>
        length reg = 3 \<and> py_round (max_speed inp) = 3"
    unfolding lr regular_count_def by (simp add: py_round_1_3)
  from p n lh f cnt one three show ?thesis by blast
qed

text \<open>
  Claim C9. For any number of timesteps, any dispersal values and any hold configuration,
  the frame loop returns a sequence whose \<open>anim_frame\<close> values are \<open>0, 1, 2, ...\<close> without
  gaps, whose \<open>geo_frame_idx\<close> never decreases, and in which every timestep index below
  \<open>total_steps\<close> occurs (and no other).
\<close>

theorem expanded_frames_invariant:
  assumes "well_formed_input inp"
  shows "\<exists>frames. expand_frames inp = returns frames \<and>
     map anim_frame frames = [0..<length frames] \<and>
     sorted (map geo_frame_idx frames) \<and>
     set (map geo_frame_idx frames) = {0..<length (time_values inp)}"
proof -
  from expand_frames_result[OF assms] obtain frames where
    f: "expand_frames inp = returns frames" and
    geo: "map geo_frame_idx frames
             = concat (map (\<lambda>i. replicate (regular_count inp i + hold_count inp i) i)
                           [0..<length (time_values inp)])" and
    an: "map anim_frame frames = [0..<length frames]"
    by blast
  have s: "sorted (map geo_frame_idx frames)"
    unfolding geo by (rule sorted_concat_replicate)
  have "\<forall>i<length (time_values inp). 1 \<le> regular_count inp i + hold_count inp i"
    using regular_count_pos by (simp add: trans_le_add1)
  then have st: "set (map geo_frame_idx frames) = {0..<length (time_values inp)}"
    unfolding geo by (rule set_concat_replicate)
  from f an s st show ?thesis by blast
qed

text \<open>The theorem at three timesteps, for the timestep with dispersal 0 and two hold frames.\<close>

theorem regular_frame_count_witness:
  "well_formed_input \<lparr>time_values = [2, 1, 0], smooth_lons = [10, 20, 30], smooth_lats = [1, 2, 3],
      smooth_dispersal = [1, 0, 1/2], hold_frames = [1 \<mapsto> (2, ''hold'')],
      era_list = [mk_era 2 None None ''a'' 0, mk_era 0 (Some 1) (Some 2) ''b'' 1],
      min_speed = 1, max_speed = 3\<rparr> \<and>
   (1::nat) < length (time_values \<lparr>time_values = [2, 1, 0], smooth_lons = [10, 20, 30],
      smooth_lats = [1, 2, 3],
      smooth_dispersal = [1, 0, 1/2], hold_frames = [1 \<mapsto> (2, ''hold'')],
      era_list = [mk_era 2 None None ''a'' 0, mk_era 0 (Some 1) (Some 2) ''b'' 1],
      min_speed = 1, max_speed = 3\<rparr>) \<and>
   (\<exists>reg hold frames.
      timestep_frames \<lparr>time_values = [2, 1, 0], smooth_lons = [10, 20, 30], smooth_lats = [1, 2, 3],
        smooth_dispersal = [1, 0, 1/2], hold_frames = [1 \<mapsto> (2, ''hold'')],
        era_list = [mk_era 2 None None ''a'' 0, mk_era 0 (Some 1) (Some 2) ''b'' 1],
        min_speed = 1, max_speed = 3\<rparr> 1 1 = returns (reg @ hold) \<and>
      length reg = 3 \<and> length hold = 2 \<and>
      expand_frames \<lparr>time_values = [2, 1, 0], smooth_lons = [10, 20, 30], smooth_lats = [1, 2, 3],
        smooth_dispersal = [1, 0, 1/2], hold_frames = [1 \<mapsto> (2, ''hold'')],
        era_list = [mk_era 2 None None ''a'' 0, mk_era 0 (Some 1) (Some 2) ''b'' 1],
        min_speed = 1, max_speed = 3\<rparr> = returns frames \<and>
      length (filter (\<lambda>f. geo_frame_idx f = 1) frames) = 5)"
proof -
  define inp where "inp = \<lparr>time_values = [2, 1, 0], smooth_lons = [10, 20, 30],
      smooth_lats = [1, 2, 3],
      smooth_dispersal = [1, 0, 1/2], hold_frames = [1 \<mapsto> (2 :: int, ''hold'')],
      era_list = [mk_era 2 None None ''a'' 0, mk_era 0 (Some 1) (Some 2) ''b'' 1],
      min_speed = 1, max_speed = 3\<rparr>"
  have wf: "well_formed_input inp" by (simp add: inp_def well_formed_input_def)
  have i: "(1::nat) < length (time_values inp)" by (simp add: inp_def)
  have c: "min_speed inp = 1 \<and> max_speed inp = 3 \<and> smooth_dispersal inp ! 1 = 0"
    by (simp add: inp_def)
  have h: "hold_count inp 1 = 2" by (simp add: inp_def hold_count_def)
  from regular_frame_count[OF wf i, of 1] obtain reg hold frames where
    r: "timestep_frames inp 1 1 = returns (reg @ hold)"
    "length hold = hold_count inp 1"
    "expand_frames inp = returns frames"
    "length (filter (\<lambda>f. geo_frame_idx f = 1) frames) = length reg + length hold"
    "min_speed inp = 1 \<and> max_speed inp = 3 \<and> smooth_dispersal inp ! 1 = 0 \<longrightarrow>
        length reg = 3 \<and> py_round (max_speed inp) = 3"
    by blast
  from r(5) c have lr: "length reg = 3" by blast
  from r(2) h have lh: "length hold = 2" by simp
  from r(4) lr lh have "length (filter (\<lambda>f. geo_frame_idx f = 1) frames) = 5" by simp
  with r(1,3) lr lh have "\<exists>reg hold frames.
      timestep_frames inp 1 1 = returns (reg @ hold) \<and>
      length reg = 3 \<and> length hold = 2 \<and>
      expand_frames inp = returns frames \<and>
      length (filter (\<lambda>f. geo_frame_idx f = 1) frames) = 5"
    by blast
  with wf i show ?thesis unfolding inp_def by blast
qed

text \<open>The theorem at the same three timesteps.\<close>

theorem expanded_frames_invariant_witness:
  "well_formed_input \<lparr>time_values = [2, 1, 0], smooth_lons = [10, 20, 30], smooth_lats = [1, 2, 3],
      smooth_dispersal = [1, 0, 1/2], hold_frames = [1 \<mapsto> (2, ''hold'')],
      era_list = [mk_era 2 None None ''a'' 0, mk_era 0 (Some 1) (Some 2) ''b'' 1],
      min_speed = 1, max_speed = 3\<rparr> \<and>
   (\<exists>frames.
      expand_frames \<lparr>time_values = [2, 1, 0], smooth_lons = [10, 20, 30], smooth_lats = [1, 2, 3],
        smooth_dispersal = [1, 0, 1/2], hold_frames = [1 \<mapsto> (2, ''hold'')],
        era_list = [mk_era 2 None None ''a'' 0, mk_era 0 (Some 1) (Some 2) ''b'' 1],
        min_speed = 1, max_speed = 3\<rparr> = returns frames \<and>
      map anim_frame frames = [0..<length frames] \<and>
      sorted (map geo_frame_idx frames) \<and>
      set (map geo_frame_idx frames) = {0..<3})"
proof -
  define inp where "inp = \<lparr>time_values = [2, 1, 0], smooth_lons = [10, 20, 30],
      smooth_lats = [1, 2, 3],
      smooth_dispersal = [1, 0, 1/2], hold_frames = [1 \<mapsto> (2 :: int, ''hold'')],
      era_list = [mk_era 2 None None ''a'' 0, mk_era 0 (Some 1) (Some 2) ''b'' 1],
      min_speed = 1, max_speed = 3\<rparr>"
  have wf: "well_formed_input inp" by (simp add: inp_def well_formed_input_def)
  have l: "length (time_values inp) = 3" by (simp add: inp_def)
  from expanded_frames_invariant[OF wf] l
  have "\<exists>frames. expand_frames inp = returns frames \<and>
      map anim_frame frames = [0..<length frames] \<and>
      sorted (map geo_frame_idx frames) \<and>
      set (map geo_frame_idx frames) = {0..<3}"
    by simp
  with wf show ?thesis unfolding inp_def by blast
qed

section \<open>The clusterer: union-find and the threshold loop\<close>

lemma root_of_functional: "root_of parent i r \<Longrightarrow> root_of parent i s \<Longrightarrow> r = s"
proof (induction arbitrary: s rule: root_of.induct)
  case (root_self i parent)
  from root_self.prems root_self.hyps show ?case
    by (cases rule: root_of.cases) auto
next
  case (root_step i parent r)
  from root_step.prems root_step.hyps(1,2) have "root_of parent (parent ! i) s"
    by (cases rule: root_of.cases) auto
  with root_step.IH show ?case by blast
qed

lemma root_of_is_root: "root_of parent i r \<Longrightarrow> r < length parent \<and> parent ! r = r"
  by (induction rule: root_of.induct) auto

lemma root_of_bound: "root_of parent i r \<Longrightarrow> i < length parent"
  by (cases rule: root_of.cases) auto

lemma rep_eq: "root_of parent i r \<Longrightarrow> rep parent i = r"
  unfolding rep_def by (rule the_equality) (auto dest: root_of_functional)

lemma rank_bound:
  assumes "i < length (rank :: nat list)"
  shows "rank ! i \<le> Max (set rank)"
  using assms by (simp add: Max_ge)

lemma root_exists:
  assumes inv: "uf_inv parent rank" and i: "i < length parent"
  shows "\<exists>r. root_of parent i r"
  using i
proof (induction i rule: measure_induct_rule[of "\<lambda>i. Max (set rank) - rank ! i"])
  case (less i)
  show ?case
  proof (cases "parent ! i = i")
    case True
    with less.prems show ?thesis by (auto intro: root_self)
  next
    case False
    from inv less.prems False have p: "parent ! i < length parent"
      and rk: "rank ! i < rank ! (parent ! i)" and lr: "length rank = length parent"
      by (auto simp: uf_inv_def)
    from rank_bound[of "parent ! i" rank] p lr have "rank ! (parent ! i) \<le> Max (set rank)" by simp
    with rk have "Max (set rank) - rank ! (parent ! i) < Max (set rank) - rank ! i" by linarith
    from less.IH[OF this p] obtain r where "root_of parent (parent ! i) r" by blast
    with less.prems False show ?thesis by (auto intro: root_step)
  qed
qed

lemma root_of_rep:
  assumes "uf_inv parent rank" "i < length parent"
  shows "root_of parent i (rep parent i)"
  using root_exists[OF assms] rep_eq by auto

lemma rep_root:
  assumes "uf_inv parent rank" "i < length parent"
  shows "rep parent i < length parent" "parent ! (rep parent i) = rep parent i"
  using root_of_is_root[OF root_of_rep[OF assms]] by simp_all

lemma rep_self: "i < length parent \<Longrightarrow> parent ! i = i \<Longrightarrow> rep parent i = i"
  by (rule rep_eq) (rule root_self)

lemma rep_step:
  assumes "uf_inv parent rank" "i < length parent"
  shows "rep parent (parent ! i) = rep parent i"
proof (cases "parent ! i = i")
  case True
  then show ?thesis by simp
next
  case False
  from assms have p: "parent ! i < length parent" by (simp add: uf_inv_def)
  from root_of_rep[OF assms(1) p] assms(2) False
  have "root_of parent i (rep parent (parent ! i))" by (rule root_step[rotated 2])
  from rep_eq[OF this] show ?thesis by simp
qed

lemma halve_inv:
  assumes inv: "uf_inv parent rank" and i: "i < length parent" and nr: "parent ! i \<noteq> i"
  shows "uf_inv (parent[i := parent ! (parent ! i)]) rank"
proof -
  let ?p = "parent ! i"
  let ?g = "parent ! ?p"
  from inv i nr have p: "?p < length parent" and rip: "rank ! i < rank ! ?p"
    by (auto simp: uf_inv_def)
  from inv p have g: "?g < length parent" and rpg: "?g \<noteq> ?p \<longrightarrow> rank ! ?p < rank ! ?g"
    by (auto simp: uf_inv_def)
  from rip rpg have rig: "rank ! i < rank ! ?g" by (cases "?g = ?p") auto
  show ?thesis
    unfolding uf_inv_def
  proof (intro conjI allI impI)
    show "length rank = length (parent[i := ?g])" using inv by (simp add: uf_inv_def)
  next
    fix j assume "j < length (parent[i := ?g])"
    then have j: "j < length parent" by simp
    show "parent[i := ?g] ! j < length (parent[i := ?g])"
      using inv j g by (cases "j = i") (auto simp: uf_inv_def)
  next
    fix j assume "j < length (parent[i := ?g])" and ne: "parent[i := ?g] ! j \<noteq> j"
    then have j: "j < length parent" by simp
    show "rank ! j < rank ! (parent[i := ?g] ! j)"
    proof (cases "j = i")
      case True
      with i rig show ?thesis by simp
    next
      case False
      with ne inv j show ?thesis by (auto simp: uf_inv_def)
    qed
  qed
qed

lemma halve_rep:
  assumes inv: "uf_inv parent rank" and i: "i < length parent" and nr: "parent ! i \<noteq> i"
    and j: "j < length parent"
  shows "rep (parent[i := parent ! (parent ! i)]) j = rep parent j"
proof -
  let ?p = "parent ! i"
  let ?g = "parent ! ?p"
  let ?parent1 = "parent[i := ?g]"
  from inv i nr have p: "?p < length parent" and rip: "rank ! i < rank ! ?p"
    by (auto simp: uf_inv_def)
  from inv p have g: "?g < length parent" and rpg: "?g \<noteq> ?p \<longrightarrow> rank ! ?p < rank ! ?g"
    by (auto simp: uf_inv_def)
  from rip rpg have rig: "rank ! i < rank ! ?g" by (cases "?g = ?p") auto
  then have gi: "?g \<noteq> i" by auto
  from inv have lr: "length rank = length parent" by (simp add: uf_inv_def)
  have "root_of ?parent1 j (rep parent j)"
    using j
  proof (induction j rule: measure_induct_rule[of "\<lambda>j. Max (set rank) - rank ! j"])
    case (less j)
    show ?case
    proof (cases "parent ! j = j")
      case True
      with nr have "j \<noteq> i" by auto
      with True less.prems have "?parent1 ! j = j" "rep parent j = j"
        by (simp_all add: rep_self)
      with less.prems show ?thesis by (auto intro: root_self)
    next
      case False
      let ?q = "?parent1 ! j"
      have q: "?q < length parent" "rank ! j < rank ! ?q" "rep parent ?q = rep parent j"
      proof -
        show "?q < length parent"
          using inv less.prems g by (cases "j = i") (auto simp: uf_inv_def)
        show "rank ! j < rank ! ?q"
          using inv less.prems False rig i by (cases "j = i") (auto simp: uf_inv_def)
        show "rep parent ?q = rep parent j"
        proof (cases "j = i")
          case True
          with i have "?q = ?g" by simp
          with rep_step[OF inv p] rep_step[OF inv i] True show ?thesis by simp
        next
          case False
          then have "?q = parent ! j" by simp
          with rep_step[OF inv less.prems] show ?thesis by simp
        qed
      qed
      from rank_bound[of ?q rank] q(1) lr have "rank ! ?q \<le> Max (set rank)" by simp
      with q(2) have "Max (set rank) - rank ! ?q < Max (set rank) - rank ! j" by linarith
      from less.IH[OF this q(1)] have "root_of ?parent1 ?q (rep parent j)"
        using q(3) by simp
      moreover from q(2) have "?q \<noteq> j" by auto
      ultimately show ?thesis using less.prems by (auto intro: root_step)
    qed
  qed
  from rep_eq[OF this] show ?thesis .
qed

lemma find_root_correct:
  assumes "uf_inv parent rank" and "i < length parent"
  shows "\<exists>parent'. find_root parent i = Some (Inr (parent', rep parent i)) \<and>
           uf_inv parent' rank \<and> length parent' = length parent \<and>
           (\<forall>j<length parent. rep parent' j = rep parent j)"
  using assms
proof (induction "Max (set rank) - rank ! i" arbitrary: parent i rule: less_induct)
  case less
  note inv = less.prems(1) and i = less.prems(2)
  show ?case
  proof (cases "parent ! i = i")
    case True
    with i have "find_root parent i = Some (Inr (parent, i))"
      by (subst find_root.simps) simp
    with True i inv show ?thesis by (auto simp: rep_self)
  next
    case False
    let ?p = "parent ! i"
    let ?g = "parent ! ?p"
    let ?parent1 = "parent[i := ?g]"
    from inv i False have p: "?p < length parent" and rip: "rank ! i < rank ! ?p"
      by (auto simp: uf_inv_def)
    from inv p have g: "?g < length parent" and rpg: "?g \<noteq> ?p \<longrightarrow> rank ! ?p < rank ! ?g"
      by (auto simp: uf_inv_def)
    from rip rpg have rig: "rank ! i < rank ! ?g" by (cases "?g = ?p") auto
    from inv have lr: "length rank = length parent" by (simp add: uf_inv_def)
    have step: "find_root parent i = find_root ?parent1 ?g"
      using i False p by (subst find_root.simps) simp
    note inv1 = halve_inv[OF inv i False]
    from rank_bound[of ?g rank] g lr have "rank ! ?g \<le> Max (set rank)" by simp
    with rig have m: "Max (set rank) - rank ! ?g < Max (set rank) - rank ! i" by linarith
    have g1: "?g < length ?parent1" using g by simp
    from less.hyps[OF m inv1 g1] obtain parent' where
      r: "find_root ?parent1 ?g = Some (Inr (parent', rep ?parent1 ?g))"
      "uf_inv parent' rank" "length parent' = length ?parent1"
      "\<forall>j<length ?parent1. rep parent' j = rep ?parent1 j"
      by blast
    have "rep ?parent1 ?g = rep parent ?g" by (rule halve_rep[OF inv i False g])
    also have "\<dots> = rep parent i" using rep_step[OF inv p] rep_step[OF inv i] by simp
    finally have rg: "rep ?parent1 ?g = rep parent i" .
    have "\<forall>j<length parent. rep parent' j = rep parent j"
      using r(4) halve_rep[OF inv i False] by simp
    with step r rg show ?thesis by auto
  qed
qed

lemma link_inv:
  assumes inv: "uf_inv parent rank"
    and ra: "ra < length parent" "parent ! ra = ra"
    and rb: "rb < length parent" "parent ! rb = rb"
    and lr: "length rank' = length rank"
    and same: "\<forall>j<length parent. j \<noteq> ra \<longrightarrow> rank' ! j = rank ! j"
    and up: "rank ! ra \<le> rank' ! ra"
    and lt: "rank' ! rb < rank' ! ra"
  shows "uf_inv (parent[rb := ra]) rank'"
  unfolding uf_inv_def
proof (intro conjI allI impI)
  show "length rank' = length (parent[rb := ra])" using inv lr by (simp add: uf_inv_def)
next
  fix j assume "j < length (parent[rb := ra])"
  then have j: "j < length parent" by simp
  show "parent[rb := ra] ! j < length (parent[rb := ra])"
    using inv j ra(1) by (cases "j = rb") (auto simp: uf_inv_def)
next
  fix j assume "j < length (parent[rb := ra])" and ne: "parent[rb := ra] ! j \<noteq> j"
  then have j: "j < length parent" by simp
  show "rank' ! j < rank' ! (parent[rb := ra] ! j)"
  proof (cases "j = rb")
    case True
    with rb(1) lt show ?thesis by simp
  next
    case False
    with ne have pj: "parent[rb := ra] ! j = parent ! j" "parent ! j \<noteq> j" by simp_all
    with ra(2) have jra: "j \<noteq> ra" by auto
    from inv j pj(2) have q: "parent ! j < length parent" "rank ! j < rank ! (parent ! j)"
      by (auto simp: uf_inv_def)
    have "rank ! (parent ! j) \<le> rank' ! (parent ! j)"
      using same q(1) up by (cases "parent ! j = ra") auto
    with q(2) same j jra pj(1) show ?thesis by simp
  qed
qed

lemma link_rep:
  assumes inv: "uf_inv parent rank"
    and ra: "ra < length parent" "parent ! ra = ra"
    and rb: "rb < length parent" "parent ! rb = rb"
    and ne: "ra \<noteq> rb"
    and j: "j < length parent"
  shows "rep (parent[rb := ra]) j = (if rep parent j = rb then ra else rep parent j)"
proof -
  let ?parent3 = "parent[rb := ra]"
  from inv have lr: "length rank = length parent" by (simp add: uf_inv_def)
  have raroot: "root_of ?parent3 ra ra"
    using ra ne by (auto intro: root_self)
  have "root_of ?parent3 j (if rep parent j = rb then ra else rep parent j)"
    using j
  proof (induction j rule: measure_induct_rule[of "\<lambda>j. Max (set rank) - rank ! j"])
    case (less j)
    show ?case
    proof (cases "parent ! j = j")
      case True
      then have rj: "rep parent j = j" using less.prems by (simp add: rep_self)
      show ?thesis
      proof (cases "j = rb")
        case True
        with rb(1) ne have "?parent3 ! rb = ra" "?parent3 ! rb \<noteq> rb" by simp_all
        with raroot rb(1) have "root_of ?parent3 rb ra"
          by (auto intro: root_step)
        with True rj show ?thesis by simp
      next
        case False
        with True less.prems have "root_of ?parent3 j j" by (auto intro: root_self)
        with False rj show ?thesis by simp
      qed
    next
      case False
      with rb(2) have jrb: "j \<noteq> rb" by auto
      let ?q = "parent ! j"
      from inv less.prems False have q: "?q < length parent" "rank ! j < rank ! ?q"
        by (auto simp: uf_inv_def)
      from rank_bound[of ?q rank] q(1) lr have "rank ! ?q \<le> Max (set rank)" by simp
      with q(2) have "Max (set rank) - rank ! ?q < Max (set rank) - rank ! j" by linarith
      from less.IH[OF this q(1)]
      have "root_of ?parent3 ?q (if rep parent j = rb then ra else rep parent j)"
        unfolding rep_step[OF inv less.prems] .
      moreover have "?parent3 ! j = ?q" "?parent3 ! j \<noteq> j" using jrb False by simp_all
      ultimately show ?thesis using less.prems
        by (metis length_list_update root_step)
    qed
  qed
  from rep_eq[OF this] show ?thesis .
qed

lemma union_uf_correct:
  assumes inv: "uf_inv parent rank" and a: "a < length parent" and b: "b < length parent"
  shows "\<exists>parent' rank'. union_uf parent rank a b = returns (parent', rank') \<and>
           uf_inv parent' rank' \<and> length parent' = length parent \<and>
           (\<forall>x<length parent. \<forall>y<length parent.
              rep parent' x = rep parent' y \<longleftrightarrow>
                (rep parent x = rep parent y \<or>
                 (rep parent x \<in> {rep parent a, rep parent b} \<and>
                  rep parent y \<in> {rep parent a, rep parent b})))"
proof -
  from find_root_correct[OF inv a] obtain parent1 where
    f1: "find_root parent a = Some (Inr (parent1, rep parent a))" and
    inv1: "uf_inv parent1 rank" and l1: "length parent1 = length parent" and
    r1: "\<forall>j<length parent. rep parent1 j = rep parent j"
    by blast
  from b l1 have b1: "b < length parent1" by simp
  from find_root_correct[OF inv1 b1] obtain parent2 where
    f2: "find_root parent1 b = Some (Inr (parent2, rep parent1 b))" and
    inv2: "uf_inv parent2 rank" and l2: "length parent2 = length parent1" and
    r2: "\<forall>j<length parent1. rep parent2 j = rep parent1 j"
    by blast
  let ?ra = "rep parent a"
  let ?rb = "rep parent b"
  have rb1: "rep parent1 b = ?rb" using r1 b by simp
  have r12: "\<forall>j<length parent. rep parent2 j = rep parent j"
    using r1 r2 l1 by simp
  from inv have lr: "length rank = length parent" by (simp add: uf_inv_def)
  have l2': "length parent2 = length parent" using l1 l2 by simp
  have a2: "a < length parent2" "b < length parent2" using a b l2' by simp_all
  have roots: "?ra < length parent2" "parent2 ! ?ra = ?ra" "?rb < length parent2" "parent2 ! ?rb = ?rb"
    using rep_root[OF inv2 a2(1)] rep_root[OF inv2 a2(2)] r12 a b by simp_all
  have u: "union_uf parent rank a b =
       (if ?ra = ?rb then returns (parent2, rank)
       else if length rank \<le> ?ra \<or> length rank \<le> ?rb then raises IndexError
       else
         let ra' = (if rank ! ?ra < rank ! ?rb then ?rb else ?ra);
             rb' = (if rank ! ?ra < rank ! ?rb then ?ra else ?rb);
             parent3 = parent2[rb' := ra']
         in if rank ! ra' = rank ! rb'
            then returns (parent3, rank[ra' := rank ! ra' + 1])
            else returns (parent3, rank))"
    unfolding union_uf_def by (simp add: f1 f2 rb1 bind_comp_def returns_def)
  show ?thesis
  proof (cases "?ra = ?rb")
    case True
    with u have "union_uf parent rank a b = returns (parent2, rank)" by simp
    moreover have "\<forall>x<length parent. \<forall>y<length parent.
              rep parent2 x = rep parent2 y \<longleftrightarrow>
                (rep parent x = rep parent y \<or>
                 (rep parent x \<in> {?ra, ?rb} \<and> rep parent y \<in> {?ra, ?rb}))"
      using r12 True by auto
    ultimately show ?thesis using inv2 l2' by blast
  next
    case False
    define ra' where "ra' = (if rank ! ?ra < rank ! ?rb then ?rb else ?ra)"
    define rb' where "rb' = (if rank ! ?ra < rank ! ?rb then ?ra else ?rb)"
    define rank' where "rank' = (if rank ! ra' = rank ! rb' then rank[ra' := rank ! ra' + 1] else rank)"
    let ?parent3 = "parent2[rb' := ra']"
    have inrange: "\<not> (length rank \<le> ?ra \<or> length rank \<le> ?rb)"
      using roots(1,3) lr l2' by simp
    from u False inrange have ures: "union_uf parent rank a b = returns (?parent3, rank')"
      unfolding ra'_def rb'_def rank'_def Let_def by simp
    have ab': "ra' < length parent2" "parent2 ! ra' = ra'" "rb' < length parent2" "parent2 ! rb' = rb'"
      "ra' \<noteq> rb'" "{ra', rb'} = {?ra, ?rb}" "rank ! rb' \<le> rank ! ra'"
      using roots False unfolding ra'_def rb'_def by auto
    have lr': "length rank' = length rank" by (simp add: rank'_def)
    have same: "\<forall>j<length parent2. j \<noteq> ra' \<longrightarrow> rank' ! j = rank ! j"
      by (simp add: rank'_def)
    have ra'r: "ra' < length rank" using ab'(1) lr l2' by simp
    have up: "rank ! ra' \<le> rank' ! ra'" using ra'r by (simp add: rank'_def)
    have lt: "rank' ! rb' < rank' ! ra'"
      using ab'(5,7) ra'r by (auto simp: rank'_def)
    have inv3: "uf_inv ?parent3 rank'"
      by (rule link_inv[OF inv2 ab'(1,2,3,4) lr' same up lt])
    have rep3: "\<And>j. j < length parent \<Longrightarrow>
        rep ?parent3 j = (if rep parent j = rb' then ra' else rep parent j)"
      using link_rep[OF inv2 ab'(1,2,3,4,5)] r12 l2' by simp
    have "\<forall>x<length parent. \<forall>y<length parent.
              rep ?parent3 x = rep ?parent3 y \<longleftrightarrow>
                (rep parent x = rep parent y \<or>
                 (rep parent x \<in> {?ra, ?rb} \<and> rep parent y \<in> {?ra, ?rb}))"
    proof (intro allI impI)
      fix x y assume x: "x < length parent" and y: "y < length parent"
      show "rep ?parent3 x = rep ?parent3 y \<longleftrightarrow>
                (rep parent x = rep parent y \<or>
                 (rep parent x \<in> {?ra, ?rb} \<and> rep parent y \<in> {?ra, ?rb}))"
        unfolding rep3[OF x] rep3[OF y] ab'(6)[symmetric] using ab'(5) by auto
    qed
    with ures inv3 l2' show ?thesis by auto
  qed
qed

lemma closure_stays_below:
  assumes "(x, y) \<in> (E \<union> E\<inverse>)\<^sup>*" and "E \<subseteq> {..<n} \<times> {..<n}" and "x < (n::nat)"
  shows "y < n"
  using assms(1,3)
proof (induction rule: rtrancl_induct)
  case base
  then show ?case .
next
  case (step y z)
  with assms(2) show ?case by auto
qed

lemma closure_sym: "(x, y) \<in> (E \<union> E\<inverse>)\<^sup>* \<Longrightarrow> (y, x) \<in> (E \<union> E\<inverse>)\<^sup>*"
proof -
  assume "(x, y) \<in> (E \<union> E\<inverse>)\<^sup>*"
  then have "(y, x) \<in> ((E \<union> E\<inverse>)\<^sup>*)\<inverse>" by simp
  also have "((E \<union> E\<inverse>)\<^sup>*)\<inverse> = ((E \<union> E\<inverse>)\<inverse>)\<^sup>*" by (rule rtrancl_converse[symmetric])
  also have "(E \<union> E\<inverse>)\<inverse> = E \<union> E\<inverse>" by auto
  finally show ?thesis .
qed

lemma rep_insert_edge:
  fixes \<rho> \<rho>' :: "nat \<Rightarrow> nat"
  assumes sem: "\<forall>x<n. \<forall>y<n. \<rho> x = \<rho> y \<longleftrightarrow> (x, y) \<in> (E \<union> E\<inverse>)\<^sup>*"
    and sub: "E \<subseteq> {..<n} \<times> {..<n}"
    and a: "a < n" and b: "b < n"
    and new: "\<forall>x<n. \<forall>y<n. \<rho>' x = \<rho>' y \<longleftrightarrow>
                (\<rho> x = \<rho> y \<or> (\<rho> x \<in> {\<rho> a, \<rho> b} \<and> \<rho> y \<in> {\<rho> a, \<rho> b}))"
  shows "\<forall>x<n. \<forall>y<n. \<rho>' x = \<rho>' y \<longleftrightarrow> (x, y) \<in> (insert (a, b) E \<union> (insert (a, b) E)\<inverse>)\<^sup>*"
proof (intro allI impI)
  fix x y assume x: "x < n" and y: "y < n"
  let ?E' = "insert (a, b) E"
  let ?C = "(E \<union> E\<inverse>)\<^sup>*"
  let ?C' = "(?E' \<union> ?E'\<inverse>)\<^sup>*"
  have mono: "?C \<subseteq> ?C'" by (rule rtrancl_mono) auto
  have ab: "(a, b) \<in> ?C'" "(b, a) \<in> ?C'" by auto
  have sub': "?E' \<subseteq> {..<n} \<times> {..<n}" using sub a b by auto
  show "\<rho>' x = \<rho>' y \<longleftrightarrow> (x, y) \<in> ?C'"
  proof
    assume "\<rho>' x = \<rho>' y"
    with new x y have "\<rho> x = \<rho> y \<or> (\<rho> x \<in> {\<rho> a, \<rho> b} \<and> \<rho> y \<in> {\<rho> a, \<rho> b})" by simp
    then consider "\<rho> x = \<rho> y" | "\<rho> x = \<rho> a" "\<rho> y = \<rho> b" | "\<rho> x = \<rho> b" "\<rho> y = \<rho> a"
      by auto
    then show "(x, y) \<in> ?C'"
    proof cases
      case 1
      with sem x y mono show ?thesis by auto
    next
      case 2
      with sem x y a b have "(x, a) \<in> ?C" "(y, b) \<in> ?C" by auto
      then have "(x, a) \<in> ?C" "(b, y) \<in> ?C" by (auto intro: closure_sym)
      with mono have "(x, a) \<in> ?C'" "(b, y) \<in> ?C'" by auto
      with ab(1) show ?thesis by (meson rtrancl_trans)
    next
      case 3
      with sem x y a b have "(x, b) \<in> ?C" "(y, a) \<in> ?C" by auto
      then have "(x, b) \<in> ?C" "(a, y) \<in> ?C" by (auto intro: closure_sym)
      with mono have "(x, b) \<in> ?C'" "(a, y) \<in> ?C'" by auto
      with ab(2) show ?thesis by (meson rtrancl_trans)
    qed
  next
    assume "(x, y) \<in> ?C'"
    then show "\<rho>' x = \<rho>' y"
      using x
    proof (induction rule: rtrancl_induct)
      case base
      then show ?case by simp
    next
      case (step y z)
      from closure_stays_below[OF step.hyps(1) sub' step.prems] have yn: "y < n" .
      from step.hyps(2) sub' yn have zn: "z < n" by auto
      from step.hyps(2) consider "(y, z) \<in> E \<union> E\<inverse>" | "y = a" "z = b" | "y = b" "z = a"
        by auto
      then have "\<rho>' y = \<rho>' z"
      proof cases
        case 1
        then have "(y, z) \<in> ?C" by auto
        with sem yn zn have "\<rho> y = \<rho> z" by simp
        with new yn zn show ?thesis by simp
      next
        case 2
        with new a b show ?thesis by simp
      next
        case 3
        with new a b show ?thesis by simp
      qed
      with step.IH[OF step.prems] show ?case by simp
    qed
  qed
qed

lemma passing_Nil [simp]: "passing [] threshold = {}"
  by (simp add: passing_def)

lemma passing_Cons:
  "passing ((ab, d) # rest) threshold =
     (if d < threshold then insert ab (passing rest threshold) else passing rest threshold)"
  by (auto simp: passing_def)

lemma union_pairs_correct:
  assumes "uf_inv parent rank" and "length parent = n"
    and "\<forall>((a, b), d)\<in>set items. a < n \<and> b < n"
    and "\<forall>x<n. \<forall>y<n. rep parent x = rep parent y \<longleftrightarrow> (x, y) \<in> (E \<union> E\<inverse>)\<^sup>*"
    and "E \<subseteq> {..<n} \<times> {..<n}"
  shows "\<exists>parent' rank'. union_pairs items threshold parent rank = returns (parent', rank') \<and>
           uf_inv parent' rank' \<and> length parent' = n \<and>
           (\<forall>x<n. \<forall>y<n. rep parent' x = rep parent' y \<longleftrightarrow>
              (x, y) \<in> ((E \<union> passing items threshold) \<union> (E \<union> passing items threshold)\<inverse>)\<^sup>*)"
  using assms
proof (induction items arbitrary: parent rank E)
  case Nil
  then show ?case by auto
next
  case (Cons item items)
  obtain a b d where item: "item = ((a, b), d)" by (metis prod.exhaust)
  from Cons.prems(3) item have ab: "a < n" "b < n"
    and rest: "\<forall>((a, b), d)\<in>set items. a < n \<and> b < n" by auto
  show ?case
  proof (cases "d < threshold")
    case False
    from Cons.IH[OF Cons.prems(1,2) rest Cons.prems(4,5)] False item show ?thesis
      by (simp add: passing_Cons)
  next
    case True
    from ab Cons.prems(2) have ab': "a < length parent" "b < length parent" by simp_all
    from union_uf_correct[OF Cons.prems(1) ab'] obtain parent1 rank1 where
      u: "union_uf parent rank a b = returns (parent1, rank1)" and
      inv1: "uf_inv parent1 rank1" and l1: "length parent1 = length parent" and
      r1: "\<forall>x<length parent. \<forall>y<length parent.
              rep parent1 x = rep parent1 y \<longleftrightarrow>
                (rep parent x = rep parent y \<or>
                 (rep parent x \<in> {rep parent a, rep parent b} \<and>
                  rep parent y \<in> {rep parent a, rep parent b}))"
      by blast
    from r1 Cons.prems(2) have r1': "\<forall>x<n. \<forall>y<n.
              rep parent1 x = rep parent1 y \<longleftrightarrow>
                (rep parent x = rep parent y \<or>
                 (rep parent x \<in> {rep parent a, rep parent b} \<and>
                  rep parent y \<in> {rep parent a, rep parent b}))"
      by simp
    note sem1 = rep_insert_edge[OF Cons.prems(4,5) ab r1']
    have sub1: "insert (a, b) E \<subseteq> {..<n} \<times> {..<n}" using Cons.prems(5) ab by auto
    have l1': "length parent1 = n" using l1 Cons.prems(2) by simp
    from Cons.IH[OF inv1 l1' rest sem1 sub1, of ] obtain parent' rank' where
      res: "union_pairs items threshold parent1 rank1 = returns (parent', rank')"
      "uf_inv parent' rank'" "length parent' = n"
      "\<forall>x<n. \<forall>y<n. rep parent' x = rep parent' y \<longleftrightarrow>
         (x, y) \<in> ((insert (a, b) E \<union> passing items threshold)
                   \<union> (insert (a, b) E \<union> passing items threshold)\<inverse>)\<^sup>*"
      by blast
    have e: "insert (a, b) E \<union> passing items threshold = E \<union> passing (item # items) threshold"
      using True item by (simp add: passing_Cons)
    have "union_pairs (item # items) threshold parent rank = returns (parent', rank')"
      using True item u res(1) by simp
    with res(2,3,4) show ?thesis unfolding e by blast
  qed
qed

lemma dd_append_keys:
  "map fst (dd_append cs r j) = (if r \<in> set (map fst cs) then map fst cs else map fst cs @ [r])"
  by (induction cs r j rule: dd_append.induct) auto

lemma dd_append_mem:
  "distinct (map fst cs) \<Longrightarrow>
   (k, ms) \<in> set (dd_append cs r j) \<longleftrightarrow>
     (k \<noteq> r \<and> (k, ms) \<in> set cs) \<or>
     (k = r \<and> (\<exists>ms0. (r, ms0) \<in> set cs \<and> ms = ms0 @ [j])) \<or>
     (k = r \<and> r \<notin> fst ` set cs \<and> ms = [j])"
proof (induction cs r j rule: dd_append.induct)
  case (1 r j)
  then show ?case by auto
next
  case (2 k' idxs rest r j)
  show ?case
  proof (cases "k' = r")
    case True
    with "2.prems" have "r \<notin> fst ` set rest" by auto
    then have "\<And>m. (r, m) \<notin> set rest" by force
    with True show ?thesis by auto
  next
    case False
    with "2.prems" "2.IH" have ih: "(k, ms) \<in> set (dd_append rest r j) \<longleftrightarrow>
       (k \<noteq> r \<and> (k, ms) \<in> set rest) \<or>
       (k = r \<and> (\<exists>ms0. (r, ms0) \<in> set rest \<and> ms = ms0 @ [j])) \<or>
       (k = r \<and> r \<notin> fst ` set rest \<and> ms = [j])"
      by simp
    from False show ?thesis by (auto simp: ih)
  qed
qed

lemma grouped_step:
  assumes g: "grouped \<rho> js cs"
  shows "grouped \<rho> (js @ [j]) (dd_append cs (\<rho> j) j)"
proof -
  let ?r = "\<rho> j"
  from g have d: "distinct (map fst cs)"
    and m: "\<And>r ms. (r, ms) \<in> set cs \<Longrightarrow> ms \<noteq> [] \<and> ms = filter (\<lambda>j. \<rho> j = r) js"
    and c: "\<And>j. j \<in> set js \<Longrightarrow> \<rho> j \<in> fst ` set cs"
    unfolding grouped_def by auto
  have d': "distinct (map fst (dd_append cs ?r j))"
    using d by (simp add: dd_append_keys)
  have keys: "fst ` set (dd_append cs ?r j) = insert ?r (fst ` set cs)"
  proof -
    have "fst ` set (dd_append cs ?r j) = set (map fst (dd_append cs ?r j))" by simp
    also have "\<dots> = insert ?r (fst ` set cs)" unfolding dd_append_keys by auto
    finally show ?thesis .
  qed
  have m': "\<forall>(k, ms)\<in>set (dd_append cs ?r j). ms \<noteq> [] \<and> ms = filter (\<lambda>j. \<rho> j = k) (js @ [j])"
  proof (clarify)
    fix k ms assume "(k, ms) \<in> set (dd_append cs ?r j)"
    then consider "k \<noteq> ?r" "(k, ms) \<in> set cs"
      | ms0 where "k = ?r" "(?r, ms0) \<in> set cs" "ms = ms0 @ [j]"
      | "k = ?r" "?r \<notin> fst ` set cs" "ms = [j]"
      unfolding dd_append_mem[OF d] by blast
    then show "ms \<noteq> [] \<and> ms = filter (\<lambda>j. \<rho> j = k) (js @ [j])"
    proof cases
      case 1
      with m[OF 1(2)] show ?thesis by auto
    next
      case 2
      with m[OF 2(2)] show ?thesis by auto
    next
      case 3
      have "filter (\<lambda>j'. \<rho> j' = ?r) js = []"
        unfolding filter_empty_conv
      proof (intro ballI notI)
        fix x assume "x \<in> set js" "\<rho> x = ?r"
        with c[of x] 3(2) show False by simp
      qed
      with 3 show ?thesis by simp
    qed
  qed
  have c': "\<forall>j'\<in>set (js @ [j]). \<rho> j' \<in> fst ` set (dd_append cs ?r j)"
    unfolding keys using c by auto
  from d' m' c' show ?thesis unfolding grouped_def by blast
qed

lemma build_clusters_correct:
  assumes "uf_inv parent rank" and "length parent = n"
    and "\<forall>j\<in>set rest. j < n" and "\<forall>j<n. rep parent j = \<rho> j"
    and "grouped \<rho> js cs"
  shows "\<exists>cs'. build_clusters rest parent cs = returns cs' \<and> grouped \<rho> (js @ rest) cs'"
  using assms
proof (induction rest arbitrary: parent js cs)
  case Nil
  then show ?case by simp
next
  case (Cons idx rest)
  from Cons.prems(2,3) have idx: "idx < length parent" "idx < n" by simp_all
  from find_root_correct[OF Cons.prems(1) idx(1)] obtain parent' where
    f: "find_root parent idx = Some (Inr (parent', rep parent idx))" and
    inv': "uf_inv parent' rank" and l': "length parent' = length parent" and
    r': "\<forall>j<length parent. rep parent' j = rep parent j"
    by blast
  have ri: "rep parent idx = \<rho> idx" using Cons.prems(4) idx(2) by simp
  have l'': "length parent' = n" using l' Cons.prems(2) by simp
  have rest: "\<forall>j\<in>set rest. j < n" using Cons.prems(3) by simp
  have r'': "\<forall>j<n. rep parent' j = \<rho> j" using r' Cons.prems(2,4) by simp
  from Cons.IH[OF inv' l'' rest r'' grouped_step[OF Cons.prems(5), of idx]]
  obtain cs' where "build_clusters rest parent' (dd_append cs (\<rho> idx) idx) = returns cs'"
    "grouped \<rho> ((js @ [idx]) @ rest) cs'"
    by blast
  then show ?case using f ri by (simp add: bind_comp_def)
qed

lemma max_by_correct:
  assumes "xs \<noteq> []"
  shows "\<exists>x. max_by key xs = returns x \<and> x \<in> set xs \<and> (\<forall>y\<in>set xs. key y \<le> key x)"
proof -
  have fold: "foldl (\<lambda>best y. if key best < key y then y else best) b ys \<in> insert b (set ys) \<and>
      key b \<le> key (foldl (\<lambda>best y. if key best < key y then y else best) b ys) \<and>
      (\<forall>y\<in>set ys. key y \<le> key (foldl (\<lambda>best y. if key best < key y then y else best) b ys))"
    for ys b
  proof (induction ys arbitrary: b)
    case Nil
    then show ?case by simp
  next
    case (Cons y ys)
    let ?b' = "if key b < key y then y else b"
    from Cons[of ?b'] show ?case by (auto split: if_splits)
  qed
  from assms obtain x rest where xs: "xs = x # rest" by (cases xs) auto
  with fold[of x rest] show ?thesis by (auto simp: max_by_def)
qed

lemma py_sum_sum_list: "py_sum xs = sum_list xs"
proof -
  have "foldl (+) a xs = a + sum_list xs" for a :: real
    by (induction xs arbitrary: a) (simp_all add: algebra_simps)
  then show ?thesis by (simp add: py_sum_def)
qed

lemma cluster_area_distinct:
  "distinct idxs \<Longrightarrow> cluster_area poly_data idxs = area_of poly_data (set idxs)"
  by (simp add: cluster_area_def area_of_def py_sum_sum_list sum_list_distinct_conv_sum_set)

lemma pair_items_mem:
  "((a, b), d) \<in> set (pair_items n f) \<longleftrightarrow> a < b \<and> b < n \<and> d = f a b"
proof
  assume "((a, b), d) \<in> set (pair_items n f)"
  then show "a < b \<and> b < n \<and> d = f a b" by (auto simp: pair_items_def)
next
  assume h: "a < b \<and> b < n \<and> d = f a b"
  then have "a \<in> set [0..<n]" "((a, b), d) \<in> set (map (\<lambda>b_idx. ((a, b_idx), f a b_idx)) [a + 1..<n])"
    by auto
  then show "((a, b), d) \<in> set (pair_items n f)"
    unfolding pair_items_def set_concat by (intro UN_I[of "map (\<lambda>b_idx. ((a, b_idx), f a b_idx)) [a + 1..<n]"]) auto
qed

lemma passing_pair_items: "passing (pair_items n f) threshold = linked n f threshold"
  by (auto simp: passing_def linked_def pair_items_mem)

lemma linked_below: "linked n f threshold \<subseteq> {..<n} \<times> {..<n}"
  by (auto simp: linked_def)

lemma component_below:
  "i < n \<Longrightarrow> component n f threshold i \<subseteq> {..<n}"
  unfolding component_def using closure_stays_below[OF _ linked_below] by blast

lemma component_filter_set:
  "i < n \<Longrightarrow> set (filter (\<lambda>j. j \<in> component n f threshold i) [0..<n]) = component n f threshold i"
  using component_below[of i n f threshold] by auto

lemma init_inv: "uf_inv [0..<n] (replicate n 0)"
  by (simp add: uf_inv_def)

lemma init_rep: "x < n \<Longrightarrow> rep [0..<n] x = x"
  by (simp add: rep_self)

lemma candidate_at_correct:
  assumes ne: "poly_data \<noteq> []"
  shows "\<exists>cand. candidate_at poly_data (pair_items (length poly_data) dist_fn) threshold
                  = returns cand \<and>
           is_largest_component poly_data dist_fn threshold cand \<and>
           cluster_area poly_data cand = area_of poly_data (set cand)"
proof -
  let ?n = "length poly_data"
  let ?items = "pair_items ?n dist_fn"
  let ?L = "linked ?n dist_fn threshold"
  from ne have n0: "0 < ?n" by simp
  have bound: "\<forall>((a, b), d)\<in>set ?items. a < ?n \<and> b < ?n"
    by (auto simp: pair_items_mem)
  have sem0: "\<forall>x<?n. \<forall>y<?n. rep [0..<?n] x = rep [0..<?n] y \<longleftrightarrow> (x, y) \<in> ({} \<union> {}\<inverse>)\<^sup>*"
    by (simp add: init_rep)
  from union_pairs_correct[OF init_inv _ bound sem0, of threshold] obtain parent rank where
    u: "union_pairs ?items threshold [0..<?n] (replicate ?n 0) = returns (parent, rank)" and
    inv: "uf_inv parent rank" and len: "length parent = ?n" and
    sem: "\<forall>x<?n. \<forall>y<?n. rep parent x = rep parent y \<longleftrightarrow> (x, y) \<in> (?L \<union> ?L\<inverse>)\<^sup>*"
    by (auto simp: passing_pair_items)
  have g0: "grouped (rep parent) [] []" by (simp add: grouped_def)
  have all: "\<forall>j\<in>set [0..<?n]. j < ?n" by simp
  from build_clusters_correct[OF inv len all _ g0] obtain clusters where
    b: "build_clusters [0..<?n] parent [] = returns clusters" and
    g: "grouped (rep parent) [0..<?n] clusters"
    by auto
  from g have d: "distinct (map fst clusters)"
    and m: "\<And>r ms. (r, ms) \<in> set clusters \<Longrightarrow>
              ms \<noteq> [] \<and> ms = filter (\<lambda>j. rep parent j = r) [0..<?n]"
    and c: "\<And>j. j < ?n \<Longrightarrow> rep parent j \<in> fst ` set clusters"
    unfolding grouped_def by auto
  from c[OF n0] have cne: "map snd clusters \<noteq> []" by auto
  from max_by_correct[OF cne, of "cluster_area poly_data"] obtain cand where
    mx: "max_by (cluster_area poly_data) (map snd clusters) = returns cand" and
    cin: "cand \<in> set (map snd clusters)" and
    cmax: "\<forall>y\<in>set (map snd clusters). cluster_area poly_data y \<le> cluster_area poly_data cand"
    by blast
  have run: "candidate_at poly_data ?items threshold = returns cand"
    unfolding candidate_at_def Let_def by (simp add: u b mx)
  have cls: "filter (\<lambda>j. rep parent j = rep parent i) [0..<?n]
               = filter (\<lambda>j. j \<in> component ?n dist_fn threshold i) [0..<?n]" if "i < ?n" for i
  proof (intro filter_cong refl)
    fix j assume "j \<in> set [0..<?n]"
    then have j: "j < ?n" by simp
    from sem that j have "rep parent j = rep parent i \<longleftrightarrow> (j, i) \<in> (?L \<union> ?L\<inverse>)\<^sup>*" by simp
    also have "\<dots> \<longleftrightarrow> (i, j) \<in> (?L \<union> ?L\<inverse>)\<^sup>*" by (auto intro: closure_sym)
    finally show "rep parent j = rep parent i \<longleftrightarrow> j \<in> component ?n dist_fn threshold i"
      by (simp add: component_def)
  qed
  have member: "filter (\<lambda>j. j \<in> component ?n dist_fn threshold i) [0..<?n] \<in> set (map snd clusters)"
    if "i < ?n" for i
  proof -
    from c[OF that] obtain ms where "(rep parent i, ms) \<in> set clusters" by force
    with m[OF this] cls[OF that] show ?thesis by force
  qed
  from cin obtain r where rc: "(r, cand) \<in> set clusters" by auto
  from m[OF rc] have cand_ne: "cand \<noteq> []" and cand_eq: "cand = filter (\<lambda>j. rep parent j = r) [0..<?n]"
    by blast+
  from cand_ne obtain i where i: "i \<in> set cand" by (cases cand) auto
  with cand_eq have ii: "i < ?n" "rep parent i = r" by auto
  have cand_comp: "cand = filter (\<lambda>j. j \<in> component ?n dist_fn threshold i) [0..<?n]"
    using cand_eq cls[OF ii(1)] ii(2) by simp
  have dc: "distinct cand" unfolding cand_comp by simp
  have ca: "cluster_area poly_data cand = area_of poly_data (set cand)"
    by (rule cluster_area_distinct[OF dc])
  have larger: "\<forall>k<?n. area_of poly_data (component ?n dist_fn threshold k)
                    \<le> area_of poly_data (set cand)"
  proof (intro allI impI)
    fix k assume k: "k < ?n"
    let ?ck = "filter (\<lambda>j. j \<in> component ?n dist_fn threshold k) [0..<?n]"
    from cmax member[OF k] have "cluster_area poly_data ?ck \<le> cluster_area poly_data cand" by blast
    moreover have "cluster_area poly_data ?ck = area_of poly_data (set ?ck)"
      by (rule cluster_area_distinct) simp
    ultimately show "area_of poly_data (component ?n dist_fn threshold k)
                    \<le> area_of poly_data (set cand)"
      unfolding ca component_filter_set[OF k] by simp
  qed
  from ii(1) cand_comp larger have "is_largest_component poly_data dist_fn threshold cand"
    unfolding is_largest_component_def by blast
  with run ca show ?thesis by blast
qed

lemma sample_pair_items:
  "pair_items (length [poly_of_area 2, poly_of_area 2, poly_of_area 3]) (\<lambda>a b. if a = 0 \<and> b = 1 then 15 else 30)
     = [((0, 1), 15), ((0, 2), 30), ((1, 2), 30)]"
  by (simp add: pair_items_def upt_rec)

lemma sample_candidate_12:
  "candidate_at [poly_of_area 2, poly_of_area 2, poly_of_area 3] [((0, 1), 15), ((0, 2), 30), ((1, 2), 30)] 12
     = returns [2]"
  by (simp add: candidate_at_def upt_rec find_root.simps union_uf_def bind_comp_def returns_def
      raises_def max_by_def cluster_area_def py_sum_def poly_of_area_def)

lemma sample_candidate_18:
  "candidate_at [poly_of_area 2, poly_of_area 2, poly_of_area 3] [((0, 1), 15), ((0, 2), 30), ((1, 2), 30)] 18
     = returns [0, 1]"
  by (simp add: candidate_at_def upt_rec find_root.simps union_uf_def bind_comp_def returns_def
      raises_def max_by_def cluster_area_def py_sum_def poly_of_area_def)

lemma threshold_loop_unfold:
  assumes "candidate_at poly_data items 12 = returns c12"
    and "candidate_at poly_data items 18 = returns c18"
    and "candidate_at poly_data items 25 = returns c25"
  shows "dominant_cluster poly_data items tot =
     returns (if MIN_CLUSTER_COVERAGE \<le> coverage_of poly_data tot c12 then (Some c12, 12)
              else if MIN_CLUSTER_COVERAGE \<le> coverage_of poly_data tot c18 then (Some c18, 18)
              else (Some c25, 25))"
  unfolding dominant_cluster_def CLUSTER_THRESHOLDS_def using assms by simp

text \<open>
  Claim C3. For a non-empty polygon list with positive total area, every threshold of the
  list 12, 18, 25 yields a candidate that is a connected component of greatest summed area
  for that threshold, its coverage is its summed area over the total area, and the
  selection returns the candidate of the first threshold whose coverage reaches 0.50,
  or else the candidate of the last threshold 25, together with the threshold that
  produced it.
\<close>

theorem dominant_cluster_selection:
  assumes "poly_data \<noteq> []" and "0 < total_area_of poly_data"
  shows "\<exists>c12 c18 c25.
     candidate_at poly_data (pair_items (length poly_data) dist_fn) 12 = returns c12 \<and>
     candidate_at poly_data (pair_items (length poly_data) dist_fn) 18 = returns c18 \<and>
     candidate_at poly_data (pair_items (length poly_data) dist_fn) 25 = returns c25 \<and>
     is_largest_component poly_data dist_fn 12 c12 \<and>
     is_largest_component poly_data dist_fn 18 c18 \<and>
     is_largest_component poly_data dist_fn 25 c25 \<and>
     (\<forall>c\<in>{c12, c18, c25}.
        coverage_of poly_data (total_area_of poly_data) c
          = area_of poly_data (set c) / total_area_of poly_data) \<and>
     dominant_cluster poly_data (pair_items (length poly_data) dist_fn) (total_area_of poly_data) =
       returns (if 1/2 \<le> coverage_of poly_data (total_area_of poly_data) c12 then (Some c12, 12)
                else if 1/2 \<le> coverage_of poly_data (total_area_of poly_data) c18 then (Some c18, 18)
                else (Some c25, 25))"
proof -
  let ?items = "pair_items (length poly_data) dist_fn"
  let ?total = "total_area_of poly_data"
  from candidate_at_correct[OF assms(1), of dist_fn 12] obtain c12 where
    c12: "candidate_at poly_data ?items 12 = returns c12"
    "is_largest_component poly_data dist_fn 12 c12"
    "cluster_area poly_data c12 = area_of poly_data (set c12)" by blast
  from candidate_at_correct[OF assms(1), of dist_fn 18] obtain c18 where
    c18: "candidate_at poly_data ?items 18 = returns c18"
    "is_largest_component poly_data dist_fn 18 c18"
    "cluster_area poly_data c18 = area_of poly_data (set c18)" by blast
  from candidate_at_correct[OF assms(1), of dist_fn 25] obtain c25 where
    c25: "candidate_at poly_data ?items 25 = returns c25"
    "is_largest_component poly_data dist_fn 25 c25"
    "cluster_area poly_data c25 = area_of poly_data (set c25)" by blast
  have cov: "\<forall>c\<in>{c12, c18, c25}.
        coverage_of poly_data ?total c = area_of poly_data (set c) / ?total"
    using assms(2) c12(3) c18(3) c25(3) by (simp add: coverage_of_def)
  have dom: "dominant_cluster poly_data ?items ?total =
       returns (if 1/2 \<le> coverage_of poly_data ?total c12 then (Some c12, 12)
                else if 1/2 \<le> coverage_of poly_data ?total c18 then (Some c18, 18)
                else (Some c25, 25))"
    using threshold_loop_unfold[OF c12(1) c18(1) c25(1), of ?total]
    by (simp add: MIN_CLUSTER_COVERAGE_def)
  from c12(1,2) c18(1,2) c25(1,2) cov dom show ?thesis by blast
qed

lemma linked_mono: "t1 \<le> t2 \<Longrightarrow> linked n f t1 \<subseteq> linked n f t2"
  by (auto simp: linked_def)

lemma component_mono:
  assumes "t1 \<le> t2"
  shows "component n f t1 i \<subseteq> component n f t2 i"
proof -
  from linked_mono[OF assms, of n f]
  have "linked n f t1 \<union> (linked n f t1)\<inverse> \<subseteq> linked n f t2 \<union> (linked n f t2)\<inverse>" by auto
  from rtrancl_mono[OF this] show ?thesis unfolding component_def by auto
qed

lemma area_of_mono:
  assumes "A \<subseteq> B" "B \<subseteq> {..<length poly_data}" "\<forall>p\<in>set poly_data. 0 \<le> p_area p"
  shows "area_of poly_data A \<le> area_of poly_data B"
  unfolding area_of_def
proof (rule sum_mono2)
  from assms(2) show "finite B" by (rule finite_subset) simp
  show "A \<subseteq> B" by (rule assms(1))
  fix b assume "b \<in> B - A"
  with assms(2) have "b < length poly_data" by auto
  with assms(3) show "0 \<le> p_area (poly_data ! b)" by simp
qed

text \<open>
  Claim C4. For a non-empty polygon list with positive total area and non-negative
  polygon areas, and thresholds \<open>t1 \<le> t2\<close>, both candidates are computed, each is a
  connected component of greatest summed area for its threshold, and the coverage at
  \<open>t1\<close> is at most the coverage at \<open>t2\<close>.
\<close>

theorem coverage_monotone:
  assumes "poly_data \<noteq> []" and "0 < total_area_of poly_data"
    and "\<forall>p\<in>set poly_data. 0 \<le> p_area p" and "t1 \<le> t2"
  shows "\<exists>c1 c2.
     candidate_at poly_data (pair_items (length poly_data) dist_fn) t1 = returns c1 \<and>
     candidate_at poly_data (pair_items (length poly_data) dist_fn) t2 = returns c2 \<and>
     is_largest_component poly_data dist_fn t1 c1 \<and>
     is_largest_component poly_data dist_fn t2 c2 \<and>
     coverage_of poly_data (total_area_of poly_data) c1
       \<le> coverage_of poly_data (total_area_of poly_data) c2"
proof -
  let ?n = "length poly_data"
  let ?items = "pair_items ?n dist_fn"
  let ?total = "total_area_of poly_data"
  from candidate_at_correct[OF assms(1), of dist_fn t1] obtain c1 where
    c1: "candidate_at poly_data ?items t1 = returns c1"
    "is_largest_component poly_data dist_fn t1 c1"
    "cluster_area poly_data c1 = area_of poly_data (set c1)" by blast
  from candidate_at_correct[OF assms(1), of dist_fn t2] obtain c2 where
    c2: "candidate_at poly_data ?items t2 = returns c2"
    "is_largest_component poly_data dist_fn t2 c2"
    "cluster_area poly_data c2 = area_of poly_data (set c2)" by blast
  from c1(2) obtain i where i: "i < ?n"
    and c1eq: "c1 = filter (\<lambda>j. j \<in> component ?n dist_fn t1 i) [0..<?n]"
    unfolding is_largest_component_def by blast
  from c1eq have s1: "set c1 = component ?n dist_fn t1 i"
    using component_filter_set[OF i] by simp
  from c2(2) i have big: "area_of poly_data (component ?n dist_fn t2 i) \<le> area_of poly_data (set c2)"
    unfolding is_largest_component_def by blast
  have "area_of poly_data (component ?n dist_fn t1 i) \<le> area_of poly_data (component ?n dist_fn t2 i)"
    by (rule area_of_mono[OF component_mono[OF assms(4)] component_below[OF i] assms(3)])
  with big s1 have "area_of poly_data (set c1) \<le> area_of poly_data (set c2)" by simp
  with c1(3) c2(3) assms(2)
  have "coverage_of poly_data ?total c1 \<le> coverage_of poly_data ?total c2"
    by (simp add: coverage_of_def divide_right_mono)
  with c1(1,2) c2(1,2) show ?thesis by blast
qed

lemma extract_poly_positive: "extract_poly rg = Some p \<Longrightarrow> 0 < p_area p"
  by (auto simp: extract_poly_def Let_def split: option.splits if_splits)

lemma poly_data_of_positive: "\<forall>p\<in>set (poly_data_of recon). 0 < p_area p"
proof
  fix p assume "p \<in> set (poly_data_of recon)"
  then obtain rg where "extract_poly rg = Some p"
    by (auto simp: poly_data_of_def List.map_filter_def)
  then show "0 < p_area p" by (rule extract_poly_positive)
qed

lemma sample_total_area: "total_area_of [poly_of_area 2, poly_of_area 2, poly_of_area 3] = 7"
  by (simp add: total_area_of_def py_sum_def poly_of_area_def)

lemma sample_coverage:
  "coverage_of [poly_of_area 2, poly_of_area 2, poly_of_area 3] 7 [2] = 3/7"
  "coverage_of [poly_of_area 2, poly_of_area 2, poly_of_area 3] 7 [0, 1] = 4/7"
  by (simp_all add: coverage_of_def cluster_area_def py_sum_def poly_of_area_def)

theorem dominant_cluster_selection_witness:
  "[poly_of_area 2, poly_of_area 2, poly_of_area 3] \<noteq> [] \<and>
   0 < total_area_of [poly_of_area 2, poly_of_area 2, poly_of_area 3] \<and>
   dominant_cluster [poly_of_area 2, poly_of_area 2, poly_of_area 3]
     (pair_items (length [poly_of_area 2, poly_of_area 2, poly_of_area 3])
        (\<lambda>a b. if a = 0 \<and> b = 1 then 15 else 30))
     (total_area_of [poly_of_area 2, poly_of_area 2, poly_of_area 3])
   = returns (Some [0, 1], 18)"
proof -
  let ?ps = "[poly_of_area 2, poly_of_area 2, poly_of_area 3]"
  let ?f = "\<lambda>a b :: nat. if a = 0 \<and> b = 1 then 15 else 30 :: real"
  have h1: "?ps \<noteq> []" by simp
  have h2: "0 < total_area_of ?ps" by (simp add: sample_total_area)
  from dominant_cluster_selection[OF h1 h2, of ?f] obtain c12 c18 c25 where
    c: "candidate_at ?ps (pair_items (length ?ps) ?f) 12 = returns c12"
    "candidate_at ?ps (pair_items (length ?ps) ?f) 18 = returns c18"
    and d: "dominant_cluster ?ps (pair_items (length ?ps) ?f) (total_area_of ?ps) =
       returns (if 1/2 \<le> coverage_of ?ps (total_area_of ?ps) c12 then (Some c12, 12)
                else if 1/2 \<le> coverage_of ?ps (total_area_of ?ps) c18 then (Some c18, 18)
                else (Some c25, 25))"
    by blast
  from c(1) have c12: "c12 = [2]" unfolding sample_pair_items sample_candidate_12 by simp
  from c(2) have c18: "c18 = [0, 1]" unfolding sample_pair_items sample_candidate_18 by simp
  from d have "dominant_cluster ?ps (pair_items (length ?ps) ?f) (total_area_of ?ps)
      = returns (Some [0, 1], 18)"
    unfolding c12 c18 sample_total_area sample_coverage by simp
  with h1 h2 show ?thesis by blast
qed

theorem coverage_monotone_witness:
  "[poly_of_area 2, poly_of_area 2, poly_of_area 3] \<noteq> [] \<and>
   0 < total_area_of [poly_of_area 2, poly_of_area 2, poly_of_area 3] \<and>
   0 \<le> p_area (poly_of_area 2) \<and> 0 \<le> p_area (poly_of_area 3) \<and>
   (12::real) \<le> 18 \<and>
   candidate_at [poly_of_area 2, poly_of_area 2, poly_of_area 3]
     (pair_items (length [poly_of_area 2, poly_of_area 2, poly_of_area 3])
        (\<lambda>a b. if a = 0 \<and> b = 1 then 15 else 30)) 12 = returns [2] \<and>
   candidate_at [poly_of_area 2, poly_of_area 2, poly_of_area 3]
     (pair_items (length [poly_of_area 2, poly_of_area 2, poly_of_area 3])
        (\<lambda>a b. if a = 0 \<and> b = 1 then 15 else 30)) 18 = returns [0, 1] \<and>
   coverage_of [poly_of_area 2, poly_of_area 2, poly_of_area 3]
       (total_area_of [poly_of_area 2, poly_of_area 2, poly_of_area 3]) [2]
     \<le> coverage_of [poly_of_area 2, poly_of_area 2, poly_of_area 3]
       (total_area_of [poly_of_area 2, poly_of_area 2, poly_of_area 3]) [0, 1]"
proof -
  let ?ps = "[poly_of_area 2, poly_of_area 2, poly_of_area 3]"
  let ?f = "\<lambda>a b :: nat. if a = 0 \<and> b = 1 then 15 else 30 :: real"
  have h1: "?ps \<noteq> []" by simp
  have h2: "0 < total_area_of ?ps" by (simp add: sample_total_area)
  have h3: "\<forall>p\<in>set ?ps. 0 \<le> p_area p" by (simp add: poly_of_area_def)
  have h4: "(12::real) \<le> 18" by simp
  from coverage_monotone[OF h1 h2 h3 h4, of ?f] obtain c1 c2 where
    c: "candidate_at ?ps (pair_items (length ?ps) ?f) 12 = returns c1"
    "candidate_at ?ps (pair_items (length ?ps) ?f) 18 = returns c2"
    "coverage_of ?ps (total_area_of ?ps) c1 \<le> coverage_of ?ps (total_area_of ?ps) c2"
    by blast
  from c(1) have c1: "c1 = [2]" unfolding sample_pair_items sample_candidate_12 by simp
  from c(2) have c2: "c2 = [0, 1]" unfolding sample_pair_items sample_candidate_18 by simp
  have h3': "0 \<le> p_area (poly_of_area 2) \<and> 0 \<le> p_area (poly_of_area 3)"
    by (simp add: poly_of_area_def)
  from c h1 h2 h3' h4 show ?thesis unfolding c1 c2 by blast
qed

section \<open>Step 1 and Step 2: timesteps without polygons\<close>

lemma bind_comp_assoc:
  "bind_comp (bind_comp m f) g = bind_comp m (\<lambda>x. bind_comp (f x) g)"
  by (simp add: bind_comp_def split: option.splits sum.splits)

lemma bind_comp_returns_right: "bind_comp m returns = m"
  by (simp add: bind_comp_def returns_def split: option.splits sum.splits)

lemma map_filter_Nil_iff: "List.map_filter f xs = [] \<longleftrightarrow> (\<forall>x\<in>set xs. f x = None)"
  by (induction xs) (auto simp: List.map_filter_simps split: option.splits)

lemma weighted_dist_None_iff: "weighted_dist a b rg = None \<longleftrightarrow> extract_poly rg = None"
  by (auto simp: weighted_dist_def extract_poly_def Let_def split: option.splits)

lemma no_dists_iff:
  "List.map_filter (weighted_dist a b) recon = [] \<longleftrightarrow> poly_data_of recon = []"
  by (simp add: poly_data_of_def map_filter_Nil_iff weighted_dist_None_iff)

lemma dominant_cluster_returns:
  assumes "poly_data \<noteq> []"
  shows "\<exists>c t. dominant_cluster poly_data (pairwise_dist_of poly_data) tot = returns (Some c, t)"
proof -
  let ?f = "\<lambda>a_idx b_idx. haversine_deg (p_lat (poly_data ! a_idx)) (p_lon (poly_data ! a_idx))
                                     (p_lat (poly_data ! b_idx)) (p_lon (poly_data ! b_idx))"
  have items: "pairwise_dist_of poly_data = pair_items (length poly_data) ?f"
    by (simp add: pairwise_dist_of_def)
  from candidate_at_correct[OF assms, of ?f 12] obtain c12 where
    c12: "candidate_at poly_data (pairwise_dist_of poly_data) 12 = returns c12"
    unfolding items by blast
  from candidate_at_correct[OF assms, of ?f 18] obtain c18 where
    c18: "candidate_at poly_data (pairwise_dist_of poly_data) 18 = returns c18"
    unfolding items by blast
  from candidate_at_correct[OF assms, of ?f 25] obtain c25 where
    c25: "candidate_at poly_data (pairwise_dist_of poly_data) 25 = returns c25"
    unfolding items by blast
  show ?thesis
    unfolding threshold_loop_unfold[OF c12 c18 c25] by (simp split: if_splits)
qed

lemma centroid_step_returns:
  assumes "length (raw_lats st) = length (raw_lons st)"
    and "length (land_areas st) = length (raw_lons st)"
  shows "\<exists>lon lat a. centroid_step st recon =
       returns \<lparr>raw_lons = raw_lons st @ [lon], raw_lats = raw_lats st @ [lat],
                land_areas = land_areas st @ [a]\<rparr> \<and>
     (poly_data_of recon = [] \<longrightarrow>
        lon = (if raw_lons st = [] then 0 else last (raw_lons st)) \<and>
        lat = (if raw_lons st = [] then 0 else last (raw_lats st)) \<and>
        a = (if recon = [] \<and> raw_lons st \<noteq> [] then last (land_areas st) else 0))"
proof (cases "recon = []")
  case True
  from assms have e: "raw_lats st = [] \<longleftrightarrow> raw_lons st = []"
    "land_areas st = [] \<longleftrightarrow> raw_lons st = []" by auto
  show ?thesis
  proof (cases "raw_lons st = []")
    case True
    with \<open>recon = []\<close> show ?thesis by (simp add: centroid_step_def)
  next
    case False
    with \<open>recon = []\<close> e show ?thesis by (simp add: centroid_step_def py_last_def)
  qed
next
  case ne: False
  from assms have e: "raw_lats st = [] \<longleftrightarrow> raw_lons st = []" by auto
  show ?thesis
  proof (cases "poly_data_of recon = []")
    case True
    with ne e show ?thesis
      by (simp add: centroid_step_def Let_def total_area_of_def py_sum_def)
  next
    case False
    from dominant_cluster_returns[OF False, of "total_area_of (poly_data_of recon)"]
    obtain c t where "dominant_cluster (poly_data_of recon) (pairwise_dist_of (poly_data_of recon))
        (total_area_of (poly_data_of recon)) = returns (Some c, t)" by blast
    with ne False show ?thesis by (simp add: centroid_step_def Let_def)
  qed
qed

lemma centroid_loop_snoc:
  "centroid_loop (rs @ [r]) st = bind_comp (centroid_loop rs st) (\<lambda>s. centroid_step s r)"
proof (induction rs arbitrary: st)
  case Nil
  have "centroid_loop [] = returns" by (rule ext) simp
  then show ?case by (simp add: bind_comp_returns_right)
next
  case (Cons x rs)
  have "centroid_loop (rs @ [r]) = (\<lambda>st. bind_comp (centroid_loop rs st) (\<lambda>s. centroid_step s r))"
    by (rule ext) (rule Cons.IH)
  then show ?case by (simp add: bind_comp_assoc)
qed

lemma dispersal_loop_snoc:
  "dispersal_loop st (xs @ [x]) d =
     bind_comp (dispersal_loop st xs d) (\<lambda>d'. dispersal_step st d' x)"
proof (induction xs arbitrary: d)
  case Nil
  have "dispersal_loop st [] = returns" by (rule ext) simp
  then show ?case by (simp add: bind_comp_returns_right)
next
  case (Cons y xs)
  have "dispersal_loop st (xs @ [x]) =
      (\<lambda>d. bind_comp (dispersal_loop st xs d) (\<lambda>d'. dispersal_step st d' x))"
    by (rule ext) (rule Cons.IH)
  then show ?case by (simp add: bind_comp_assoc)
qed

lemma compute_centroids_correct:
  "\<exists>st. compute_centroids recons = returns st \<and>
     length (raw_lons st) = length recons \<and>
     length (raw_lats st) = length recons \<and>
     length (land_areas st) = length recons \<and>
     (\<forall>j<length recons. poly_data_of (recons ! j) = [] \<longrightarrow>
        raw_lons st ! j = (if j = 0 then 0 else raw_lons st ! (j - 1)) \<and>
        raw_lats st ! j = (if j = 0 then 0 else raw_lats st ! (j - 1)) \<and>
        land_areas st ! j = (if recons ! j = [] \<and> j \<noteq> 0 then land_areas st ! (j - 1) else 0))"
proof (induction recons rule: rev_induct)
  case Nil
  show ?case by (simp add: compute_centroids_def)
next
  case (snoc r rs)
  let ?n = "length rs"
  from snoc obtain st0 where
    run0: "compute_centroids rs = returns st0"
    and len0: "length (raw_lons st0) = ?n" "length (raw_lats st0) = ?n"
      "length (land_areas st0) = ?n"
    and ff0: "\<forall>j<?n. poly_data_of (rs ! j) = [] \<longrightarrow>
        raw_lons st0 ! j = (if j = 0 then 0 else raw_lons st0 ! (j - 1)) \<and>
        raw_lats st0 ! j = (if j = 0 then 0 else raw_lats st0 ! (j - 1)) \<and>
        land_areas st0 ! j = (if rs ! j = [] \<and> j \<noteq> 0 then land_areas st0 ! (j - 1) else 0)"
    by blast
  from len0 have l: "length (raw_lats st0) = length (raw_lons st0)"
    "length (land_areas st0) = length (raw_lons st0)" by simp_all
  from centroid_step_returns[OF l, of r] obtain lon lat a where
    step: "centroid_step st0 r =
       returns \<lparr>raw_lons = raw_lons st0 @ [lon], raw_lats = raw_lats st0 @ [lat],
                land_areas = land_areas st0 @ [a]\<rparr>"
    and new: "poly_data_of r = [] \<longrightarrow>
        lon = (if raw_lons st0 = [] then 0 else last (raw_lons st0)) \<and>
        lat = (if raw_lons st0 = [] then 0 else last (raw_lats st0)) \<and>
        a = (if r = [] \<and> raw_lons st0 \<noteq> [] then last (land_areas st0) else 0)"
    by blast
  let ?st1 = "\<lparr>raw_lons = raw_lons st0 @ [lon], raw_lats = raw_lats st0 @ [lat],
                land_areas = land_areas st0 @ [a]\<rparr>"
  have run1: "compute_centroids (rs @ [r]) = returns ?st1"
    using run0 step by (simp add: compute_centroids_def centroid_loop_snoc)
  have ff1: "raw_lons ?st1 ! j = (if j = 0 then 0 else raw_lons ?st1 ! (j - 1)) \<and>
        raw_lats ?st1 ! j = (if j = 0 then 0 else raw_lats ?st1 ! (j - 1)) \<and>
        land_areas ?st1 ! j =
          (if (rs @ [r]) ! j = [] \<and> j \<noteq> 0 then land_areas ?st1 ! (j - 1) else 0)"
    if j: "j < length (rs @ [r])" and e: "poly_data_of ((rs @ [r]) ! j) = []" for j
  proof (cases "j < ?n")
    case True
    with e have "poly_data_of (rs ! j) = []" by (simp add: nth_append)
    with ff0 True have "raw_lons st0 ! j = (if j = 0 then 0 else raw_lons st0 ! (j - 1)) \<and>
        raw_lats st0 ! j = (if j = 0 then 0 else raw_lats st0 ! (j - 1)) \<and>
        land_areas st0 ! j = (if rs ! j = [] \<and> j \<noteq> 0 then land_areas st0 ! (j - 1) else 0)"
      by blast
    moreover from True have "j - Suc 0 < length rs" by simp
    ultimately show ?thesis using True len0 by (simp add: nth_append)
  next
    case False
    with j have jn: "j = ?n" by simp
    with e have "poly_data_of r = []" by simp
    with new have v: "lon = (if raw_lons st0 = [] then 0 else last (raw_lons st0))"
      "lat = (if raw_lons st0 = [] then 0 else last (raw_lats st0))"
      "a = (if r = [] \<and> raw_lons st0 \<noteq> [] then last (land_areas st0) else 0)" by simp_all
    show ?thesis
    proof (cases "?n = 0")
      case True
      with len0 jn v show ?thesis by simp
    next
      case False
      with len0 have ne: "raw_lons st0 \<noteq> []" "raw_lats st0 \<noteq> []" "land_areas st0 \<noteq> []"
        by auto
      from ne len0 have lasts: "last (raw_lons st0) = raw_lons st0 ! (?n - 1)"
        "last (raw_lats st0) = raw_lats st0 ! (?n - 1)"
        "last (land_areas st0) = land_areas st0 ! (?n - 1)"
        by (simp_all add: last_conv_nth)
      from False jn v ne lasts len0 show ?thesis by (simp add: nth_append)
    qed
  qed
  from run1 len0 ff1 show ?case
    by (intro exI[of _ ?st1]) simp
qed

lemma dispersal_step_returns:
  assumes "i < length d" "i < length (raw_lons st)" "i < length (raw_lats st)"
    "i < length (land_areas st)"
  shows "\<exists>v. dispersal_step st d (i, recon) = returns (d[i := v]) \<and>
     (poly_data_of recon = [] \<longrightarrow> v = d ! (i - 1))"
proof (cases "poly_data_of recon = []")
  case True
  then have "List.map_filter (weighted_dist 0 0) recon = []" by (simp add: no_dists_iff)
  with assms(1) True show ?thesis by (simp add: dispersal_step_def)
next
  case False
  then have "List.map_filter (weighted_dist 0 0) recon \<noteq> []" by (simp add: no_dists_iff)
  moreover from False have "recon \<noteq> []" by (auto simp: poly_data_of_def List.map_filter_simps)
  ultimately have "dispersal_step st d (i, recon) =
      returns (d[i := py_sum (List.map_filter
                       (weighted_dist (raw_lats st ! i) (raw_lons st ! i)) recon)
                     / max (land_areas st ! i) 0.001])"
    using assms by (simp add: dispersal_step_def)
  with False show ?thesis by blast
qed

lemma zip_upt_snoc:
  "zip [0..<length (rs @ [r])] (rs @ [r]) = zip [0..<length rs] rs @ [(length rs, r)]"
  by simp

lemma dispersal_loop_correct:
  "length rs \<le> length d0 \<Longrightarrow> length rs \<le> length (raw_lons st) \<Longrightarrow>
   length rs \<le> length (raw_lats st) \<Longrightarrow> length rs \<le> length (land_areas st) \<Longrightarrow>
   \<exists>d. dispersal_loop st (zip [0..<length rs] rs) d0 = returns d \<and>
       length d = length d0 \<and>
       (\<forall>m. length rs \<le> m \<longrightarrow> d ! m = d0 ! m) \<and>
       (\<forall>j<length rs. poly_data_of (rs ! j) = [] \<longrightarrow>
          d ! j = (if j = 0 then d0 ! 0 else d ! (j - 1)))"
proof (induction rs rule: rev_induct)
  case Nil
  show ?case by simp
next
  case (snoc r rs)
  let ?n = "length rs"
  from snoc.prems have le: "?n \<le> length d0" "?n \<le> length (raw_lons st)"
    "?n \<le> length (raw_lats st)" "?n \<le> length (land_areas st)" by simp_all
  from snoc.IH[OF le] obtain d1 where
    run1: "dispersal_loop st (zip [0..<?n] rs) d0 = returns d1"
    and len1: "length d1 = length d0"
    and keep1: "\<forall>m. ?n \<le> m \<longrightarrow> d1 ! m = d0 ! m"
    and ff1: "\<forall>j<?n. poly_data_of (rs ! j) = [] \<longrightarrow>
          d1 ! j = (if j = 0 then d0 ! 0 else d1 ! (j - 1))"
    by blast
  from snoc.prems len1 have lt: "?n < length d1" "?n < length (raw_lons st)"
    "?n < length (raw_lats st)" "?n < length (land_areas st)" by simp_all
  from dispersal_step_returns[OF lt, of r] obtain v where
    step: "dispersal_step st d1 (?n, r) = returns (d1[?n := v])"
    and new: "poly_data_of r = [] \<longrightarrow> v = d1 ! (?n - 1)" by blast
  let ?d2 = "d1[?n := v]"
  have run2: "dispersal_loop st (zip [0..<length (rs @ [r])] (rs @ [r])) d0 = returns ?d2"
    unfolding zip_upt_snoc dispersal_loop_snoc run1 using step by simp
  have keep2: "\<forall>m. length (rs @ [r]) \<le> m \<longrightarrow> ?d2 ! m = d0 ! m"
    using keep1 by simp
  have ff2: "?d2 ! j = (if j = 0 then d0 ! 0 else ?d2 ! (j - 1))"
    if j: "j < length (rs @ [r])" and e: "poly_data_of ((rs @ [r]) ! j) = []" for j
  proof (cases "j < ?n")
    case True
    with e have "poly_data_of (rs ! j) = []" by (simp add: nth_append)
    with ff1 True have "d1 ! j = (if j = 0 then d0 ! 0 else d1 ! (j - 1))" by blast
    moreover from True have "j \<noteq> ?n" "j - 1 \<noteq> ?n" by simp_all
    ultimately show ?thesis by simp
  next
    case False
    with j have jn: "j = ?n" by simp
    with e new have v: "v = d1 ! (?n - 1)" by simp
    show ?thesis
    proof (cases "?n = 0")
      case True
      with keep1 have "d1 ! 0 = d0 ! 0" by simp
      with True jn v lt(1) show ?thesis by simp
    next
      case False
      then have "?n - 1 \<noteq> ?n" by (cases rs) simp_all
      with False jn v lt(1) show ?thesis by simp
    qed
  qed
  from run2 len1 keep2 ff2 show ?case
    by (intro exI[of _ ?d2]) simp
qed

lemma compute_dispersal_correct:
  assumes "length (raw_lons st) = length recons" "length (raw_lats st) = length recons"
    "length (land_areas st) = length recons"
  shows "\<exists>d. compute_dispersal st recons = returns d \<and> length d = length recons \<and>
       (\<forall>j<length recons. poly_data_of (recons ! j) = [] \<longrightarrow>
          d ! j = (if j = 0 then 0 else d ! (j - 1)))"
proof -
  from dispersal_loop_correct[of recons "replicate (length recons) 0" st] assms
  obtain d where d: "dispersal_loop st (zip [0..<length recons] recons)
        (replicate (length recons) 0) = returns d"
    "length d = length (replicate (length recons) (0::real))"
    "\<forall>j<length recons. poly_data_of (recons ! j) = [] \<longrightarrow>
          d ! j = (if j = 0 then replicate (length recons) 0 ! 0 else d ! (j - 1))"
    by auto
  have "d ! j = (if j = 0 then 0 else d ! (j - 1))"
    if "j < length recons" "poly_data_of (recons ! j) = []" for j
  proof -
    from that d(3) have "d ! j = (if j = 0 then replicate (length recons) 0 ! 0 else d ! (j - 1))"
      by blast
    with that(1) show ?thesis by (cases "j = 0") simp_all
  qed
  with d(1,2) show ?thesis by (simp add: compute_dispersal_def)
qed

text \<open>
  Claim C8, amended. Steps 1 and 2 return on every history. For a timestep \<open>i\<close> without
  polygons: if it is the first one, its record is the default (centroid (0, 0), land area
  0, dispersal 0) and the run goes on; if it is a later one, its record has the raw
  centroid and the dispersal of the record before it, and also its land area when nothing
  was reconstructed at all.
\<close>

theorem empty_timestep_forward_fill:
  assumes "i < length recons" and "poly_data_of (recons ! i) = []"
  shows "\<exists>st d. centroids_and_dispersal recons = returns (st, d) \<and>
     length (raw_lons st) = length recons \<and> length (raw_lats st) = length recons \<and>
     length (land_areas st) = length recons \<and> length d = length recons \<and>
     (i = 0 \<longrightarrow> raw_lons st ! 0 = 0 \<and> raw_lats st ! 0 = 0 \<and> land_areas st ! 0 = 0 \<and> d ! 0 = 0) \<and>
     (0 < i \<longrightarrow> raw_lons st ! i = raw_lons st ! (i - 1) \<and>
                raw_lats st ! i = raw_lats st ! (i - 1) \<and>
                d ! i = d ! (i - 1) \<and>
                land_areas st ! i = (if recons ! i = [] then land_areas st ! (i - 1) else 0))"
proof -
  from compute_centroids_correct[of recons] obtain st where
    st: "compute_centroids recons = returns st"
    and len: "length (raw_lons st) = length recons" "length (raw_lats st) = length recons"
      "length (land_areas st) = length recons"
    and ff: "\<forall>j<length recons. poly_data_of (recons ! j) = [] \<longrightarrow>
        raw_lons st ! j = (if j = 0 then 0 else raw_lons st ! (j - 1)) \<and>
        raw_lats st ! j = (if j = 0 then 0 else raw_lats st ! (j - 1)) \<and>
        land_areas st ! j = (if recons ! j = [] \<and> j \<noteq> 0 then land_areas st ! (j - 1) else 0)"
    by blast
  from compute_dispersal_correct[OF len] obtain d where
    d: "compute_dispersal st recons = returns d" and lend: "length d = length recons"
    and dd: "\<forall>j<length recons. poly_data_of (recons ! j) = [] \<longrightarrow>
          d ! j = (if j = 0 then 0 else d ! (j - 1))"
    by blast
  have run: "centroids_and_dispersal recons = returns (st, d)"
    by (simp add: centroids_and_dispersal_def st d)
  from ff assms have c: "raw_lons st ! i = (if i = 0 then 0 else raw_lons st ! (i - 1))"
    "raw_lats st ! i = (if i = 0 then 0 else raw_lats st ! (i - 1))"
    "land_areas st ! i = (if recons ! i = [] \<and> i \<noteq> 0 then land_areas st ! (i - 1) else 0)"
    by blast+
  from dd assms have e: "d ! i = (if i = 0 then 0 else d ! (i - 1))" by blast
  have z: "i = 0 \<longrightarrow> raw_lons st ! 0 = 0 \<and> raw_lats st ! 0 = 0 \<and> land_areas st ! 0 = 0 \<and> d ! 0 = 0"
    using c e by auto
  have p: "0 < i \<longrightarrow> raw_lons st ! i = raw_lons st ! (i - 1) \<and>
                raw_lats st ! i = raw_lats st ! (i - 1) \<and>
                d ! i = d ! (i - 1) \<and>
                land_areas st ! i = (if recons ! i = [] then land_areas st ! (i - 1) else 0)"
    using c e by auto
  from run len lend z p show ?thesis by blast
qed

lemma sample_poly_data:
  "poly_data_of [Some \<lparr>get_area = Some 1, to_lat_lon_list = [(0, 90)]\<rparr>] =
     [\<lparr>p_lat = 0, p_lon = 90, p_area = 1, p_x = 0, p_y = 1, p_z = 0\<rparr>]"
  by (simp add: poly_data_of_def List.map_filter_simps extract_poly_def np_mean_def py_sum_def
      radians_def)

lemma sample_dominant:
  "dominant_cluster [\<lparr>p_lat = 0, p_lon = 90, p_area = 1, p_x = 0, p_y = 1, p_z = 0\<rparr>]
     (pairwise_dist_of [\<lparr>p_lat = 0, p_lon = 90, p_area = 1, p_x = 0, p_y = 1, p_z = 0\<rparr>]) 1
   = returns (Some [0], 12)"
  by (simp add: dominant_cluster_def CLUSTER_THRESHOLDS_def pairwise_dist_of_def pair_items_def
      candidate_at_def find_root.simps bind_comp_def returns_def max_by_def coverage_of_def
      cluster_area_def py_sum_def MIN_CLUSTER_COVERAGE_def)

lemma sample_centroid:
  "cluster_centroid [\<lparr>p_lat = 0, p_lon = 90, p_area = 1, p_x = 0, p_y = 1, p_z = 0\<rparr>] [0]
     = (90, 0)"
  by (simp add: cluster_centroid_def py_sum_def arctan2_def degrees_def)

lemma sample_dist:
  "weighted_dist 0 90 (Some \<lparr>get_area = Some 1, to_lat_lon_list = [(0, 90)]\<rparr>) = Some 0"
  by (simp add: weighted_dist_def np_mean_def py_sum_def radians_def arctan2_def)

text \<open>
  Claim C8 as stated fails. On a history whose first timestep is empty and whose second
  timestep has one polygon at latitude 0, longitude 90, Steps 1 and 2 raise nothing: the
  first record is the default (0, 0) with land area 0 and dispersal 0, and the second
  record is computed from the polygon.
\<close>

theorem empty_first_timestep_counterexample:
  "centroids_and_dispersal [[], [Some \<lparr>get_area = Some 1, to_lat_lon_list = [(0, 90)]\<rparr>]]
     = returns (\<lparr>raw_lons = [0, 90], raw_lats = [0, 0], land_areas = [0, 1]\<rparr>, [0, 0])"
proof -
  let ?g = "\<lparr>get_area = Some 1, to_lat_lon_list = [(0::real, 90::real)]\<rparr>"
  have s0: "centroid_step \<lparr>raw_lons = [], raw_lats = [], land_areas = []\<rparr> []
      = returns \<lparr>raw_lons = [0], raw_lats = [0], land_areas = [0]\<rparr>"
    by (simp add: centroid_step_def)
  have s1: "centroid_step \<lparr>raw_lons = [0], raw_lats = [0], land_areas = [0]\<rparr> [Some ?g]
      = returns \<lparr>raw_lons = [0, 90], raw_lats = [0, 0], land_areas = [0, 1]\<rparr>"
    unfolding centroid_step_def Let_def sample_poly_data
    by (simp add: total_area_of_def py_sum_def sample_dominant sample_centroid)
  have c: "compute_centroids [[], [Some ?g]]
      = returns \<lparr>raw_lons = [0, 90], raw_lats = [0, 0], land_areas = [0, 1]\<rparr>"
    by (simp add: compute_centroids_def s0 s1)
  have z: "zip [0..<length [[], [Some ?g]]] [[], [Some ?g]] = [(0, []), (1, [Some ?g])]"
    by (simp add: upt_rec)
  have d0: "dispersal_step \<lparr>raw_lons = [0, 90], raw_lats = [0, 0], land_areas = [0, 1]\<rparr>
      [0, 0] (0, []) = returns [0, 0]"
    by (simp add: dispersal_step_def)
  have d1: "dispersal_step \<lparr>raw_lons = [0, 90], raw_lats = [0, 0], land_areas = [0, 1]\<rparr>
      [0, 0] (Suc 0, [Some ?g]) = returns [0, 0]"
    by (simp add: dispersal_step_def sample_dist py_sum_def)
  have d: "compute_dispersal \<lparr>raw_lons = [0, 90], raw_lats = [0, 0], land_areas = [0, 1]\<rparr>
      [[], [Some ?g]] = returns [0, 0]"
    unfolding compute_dispersal_def z by (simp add: d0 d1)
  show ?thesis
    by (simp add: centroids_and_dispersal_def c d)
qed

text \<open>The theorem at a history whose second timestep is empty.\<close>

theorem empty_timestep_forward_fill_witness:
  "1 < length [[Some \<lparr>get_area = Some 1, to_lat_lon_list = [(0, 90)]\<rparr>], []] \<and>
   poly_data_of ([[Some \<lparr>get_area = Some 1, to_lat_lon_list = [(0, 90)]\<rparr>], []] ! 1) = [] \<and>
   (\<exists>st d. centroids_and_dispersal
              [[Some \<lparr>get_area = Some 1, to_lat_lon_list = [(0, 90)]\<rparr>], []] = returns (st, d) \<and>
      raw_lons st ! 1 = raw_lons st ! 0 \<and> raw_lats st ! 1 = raw_lats st ! 0 \<and>
      land_areas st ! 1 = land_areas st ! 0 \<and> d ! 1 = d ! 0)"
proof -
  let ?rs = "[[Some \<lparr>get_area = Some 1, to_lat_lon_list = [(0::real, 90::real)]\<rparr>], []]"
  have h1: "1 < length ?rs" by simp
  have h2: "poly_data_of (?rs ! 1) = []" by (simp add: poly_data_of_def List.map_filter_simps)
  from empty_timestep_forward_fill[OF h1 h2]
  have "\<exists>st d. centroids_and_dispersal ?rs = returns (st, d) \<and>
      raw_lons st ! 1 = raw_lons st ! 0 \<and> raw_lats st ! 1 = raw_lats st ! 0 \<and>
      land_areas st ! 1 = land_areas st ! 0 \<and> d ! 1 = d ! 0"
    by fastforce
  with h1 h2 show ?thesis by blast
qed

end
